theory Spec2Isabelle
  imports Complex_Main "HOL-Library.Stream" "HOL-Library.Log_Nat"
begin

section \<open>The load balancer simulation of \<^verbatim>\<open>src/main.js\<close>\<close>

text \<open>
  The simulation engine of \<^verbatim>\<open>src/main.js\<close>: requests, servers, the five selection
  algorithms, the driver (\<^verbatim>\<open>LoadBalancerSimulation\<close>) and its balance history. Rendering
  (meshes, DOM elements, the canvas) is left out: no decision of the engine reads it.

  The loads are modelled as reals: those of the catalogue are small integers, and their
  sums are exact in double precision; times and averages of times are idealised as reals
  too. The balance score, whose quotients are rounded, is computed in double precision.
  \<^verbatim>\<open>Date.now()\<close> is a parameter of every operation that reads the clock, and
  \<^verbatim>\<open>Math.random()\<close> is a stream of draws, each meant to lie in \<open>[0, 1)\<close>.
\<close>

subsection \<open>JavaScript values\<close>

text \<open>
  A number used as an index or cursor: an integer or \<^verbatim>\<open>NaN\<close>. Reading a property of
  \<^verbatim>\<open>undefined\<close> raises a \<^verbatim>\<open>TypeError\<close>; the abstract base class raises
  \<^verbatim>\<open>Error('Method not implemented')\<close>.
\<close>

datatype jsnum = Num int | NaN

datatype error = TypeError | NotImplemented

text \<open>\<^verbatim>\<open>xs[i]\<close>: \<^verbatim>\<open>undefined\<close> (here \<open>None\<close>) outside the array.\<close>

fun js_index :: "'a list \<Rightarrow> jsnum \<Rightarrow> 'a option" where
  "js_index xs NaN = None"
| "js_index xs (Num i) = (if 0 \<le> i \<and> i < int (length xs) then Some (xs ! nat i) else None)"

text \<open>\<^verbatim>\<open>a % b\<close> for a divisor that is an array length or a server count: the sign
  follows the dividend, and a zero divisor gives \<^verbatim>\<open>NaN\<close>.\<close>

fun js_rem :: "jsnum \<Rightarrow> nat \<Rightarrow> jsnum" where
  "js_rem NaN n = NaN"
| "js_rem (Num a) n = (if n = 0 then NaN else Num (sgn a * (\<bar>a\<bar> mod int n)))"

fun js_add :: "jsnum \<Rightarrow> int \<Rightarrow> jsnum" where
  "js_add NaN i = NaN"
| "js_add (Num a) i = Num (a + i)"

text \<open>\<^verbatim>\<open>Math.floor(Math.random() * n)\<close> for a draw \<open>r\<close>.\<close>

definition random_index :: "real \<Rightarrow> nat \<Rightarrow> jsnum" where
  "random_index r n = Num \<lfloor>r * real n\<rfloor>"

subsection \<open>Numbers in double precision\<close>

text \<open>
  The balance score divides, and its quotients are rounded: it is computed here as
  JavaScript computes it, in IEEE 754 double precision. A number is a finite double (a
  real), an infinity or \<^verbatim>\<open>NaN\<close>. The sign of a zero is not modelled: the score never
  divides by a zero (it tests the mean before), and \<^verbatim>\<open>Math.max(0, x)\<close> gives \<open>+0\<close> for
  either zero.
\<close>

datatype number = Finite real | PlusInfinity | MinusInfinity | NotANumber

text \<open>Rounding to the nearest integer, a tie to the even one.\<close>

definition round_half_even :: "real \<Rightarrow> int" where
  "round_half_even y =
     (let f = \<lfloor>y\<rfloor> in
      if y - of_int f < 1 / 2 then f
      else if 1 / 2 < y - of_int f then f + 1
      else if even f then f else f + 1)"

text \<open>
  The doubles are the integer multiples of \<open>2^-1074\<close> with a significand of at most 53
  bits, below \<open>2^1024\<close> in magnitude. A magnitude \<open>a\<close> is scaled to \<open>X = a * 2^1074\<close>; the
  bits of \<open>X\<close> beyond 53 are shifted out, the rest is rounded to an integer and shifted
  back. (Subnormal magnitudes have \<open>X < 2^52\<close> and are rounded to a multiple of
  \<open>2^-1074\<close>.)
\<close>

definition double_shift :: "real \<Rightarrow> nat" where
  "double_shift X = nat (bitlen \<lfloor>X\<rfloor> - 53)"

definition quantum_exponent :: nat where
  "quantum_exponent = 1074"

definition overflow_exponent :: nat where
  "overflow_exponent = 1024"

definition round_magnitude :: "real \<Rightarrow> real" where
  "round_magnitude a =
     (let X = a * 2 ^ quantum_exponent; sh = double_shift X
      in of_int (round_half_even (X / 2 ^ sh)) * 2 ^ sh / 2 ^ quantum_exponent)"

text \<open>The double nearest to a real; a rounded magnitude of \<open>2^1024\<close> or more overflows.\<close>

definition to_double :: "real \<Rightarrow> number" where
  "to_double x =
     (let m = round_magnitude \<bar>x\<bar> in
      if 2 ^ overflow_exponent \<le> m then (if 0 < x then PlusInfinity else MinusInfinity)
      else Finite (if 0 < x then m else - m))"

text \<open>
  The operators: the exact result of finite operands is rounded, and the infinities and
  \<^verbatim>\<open>NaN\<close> follow IEEE 754. A zero divisor counts as \<open>+0\<close>.
\<close>

fun infinity_of_sign :: "real \<Rightarrow> number" where
  "infinity_of_sign s = (if 0 < s then PlusInfinity else if s < 0 then MinusInfinity else NotANumber)"

fun sign_of :: "number \<Rightarrow> real" where
  "sign_of (Finite x) = sgn x"
| "sign_of PlusInfinity = 1"
| "sign_of MinusInfinity = - 1"
| "sign_of NotANumber = 0"

fun js_negate :: "number \<Rightarrow> number" where
  "js_negate (Finite x) = Finite (- x)"
| "js_negate PlusInfinity = MinusInfinity"
| "js_negate MinusInfinity = PlusInfinity"
| "js_negate NotANumber = NotANumber"

fun js_plus :: "number \<Rightarrow> number \<Rightarrow> number" where
  "js_plus (Finite x) (Finite y) = to_double (x + y)"
| "js_plus NotANumber b = NotANumber"
| "js_plus a NotANumber = NotANumber"
| "js_plus PlusInfinity MinusInfinity = NotANumber"
| "js_plus MinusInfinity PlusInfinity = NotANumber"
| "js_plus PlusInfinity b = PlusInfinity"
| "js_plus a PlusInfinity = PlusInfinity"
| "js_plus MinusInfinity b = MinusInfinity"
| "js_plus a MinusInfinity = MinusInfinity"

definition js_minus :: "number \<Rightarrow> number \<Rightarrow> number" where
  "js_minus a b = js_plus a (js_negate b)"

fun js_times :: "number \<Rightarrow> number \<Rightarrow> number" where
  "js_times (Finite x) (Finite y) = to_double (x * y)"
| "js_times a b = infinity_of_sign (sign_of a * sign_of b)"

definition js_divide :: "number \<Rightarrow> number \<Rightarrow> number" where
  "js_divide a b =
     (case a of
        Finite x \<Rightarrow>
          (case b of
             Finite y \<Rightarrow> if y = 0 then infinity_of_sign (sgn x) else to_double (x / y)
           | PlusInfinity \<Rightarrow> Finite 0
           | MinusInfinity \<Rightarrow> Finite 0
           | NotANumber \<Rightarrow> NotANumber)
      | PlusInfinity \<Rightarrow>
          (case b of
             Finite y \<Rightarrow> if y < 0 then MinusInfinity else PlusInfinity
           | PlusInfinity \<Rightarrow> NotANumber
           | MinusInfinity \<Rightarrow> NotANumber
           | NotANumber \<Rightarrow> NotANumber)
      | MinusInfinity \<Rightarrow>
          (case b of
             Finite y \<Rightarrow> if y < 0 then PlusInfinity else MinusInfinity
           | PlusInfinity \<Rightarrow> NotANumber
           | MinusInfinity \<Rightarrow> NotANumber
           | NotANumber \<Rightarrow> NotANumber)
      | NotANumber \<Rightarrow> NotANumber)"

text \<open>\<^verbatim>\<open>Math.abs\<close>, \<^verbatim>\<open>Math.max\<close> (of two numbers, and of the elements of an array:
  \<open>-Infinity\<close> for none) and \<^verbatim>\<open>Math.round\<close>, which rounds a half up.\<close>

fun Math_abs :: "number \<Rightarrow> number" where
  "Math_abs (Finite x) = Finite \<bar>x\<bar>"
| "Math_abs PlusInfinity = PlusInfinity"
| "Math_abs MinusInfinity = PlusInfinity"
| "Math_abs NotANumber = NotANumber"

fun js_max :: "number \<Rightarrow> number \<Rightarrow> number" where
  "js_max (Finite x) (Finite y) = Finite (max x y)"
| "js_max NotANumber b = NotANumber"
| "js_max a NotANumber = NotANumber"
| "js_max PlusInfinity b = PlusInfinity"
| "js_max a PlusInfinity = PlusInfinity"
| "js_max MinusInfinity b = b"
| "js_max a MinusInfinity = a"

definition Math_max :: "number list \<Rightarrow> number" where
  "Math_max xs = foldl js_max MinusInfinity xs"

fun Math_round :: "number \<Rightarrow> number" where
  "Math_round (Finite x) = Finite (of_int \<lfloor>x + 1 / 2\<rfloor>)"
| "Math_round a = a"

subsection \<open>Request\<close>

record request =
  id_r :: nat
  cpuLoad :: real
  memoryLoad :: real
  processingTime :: real
  startTime :: real

text \<open>The constructor; its last argument is the value of \<^verbatim>\<open>Date.now()\<close>.\<close>

definition Request :: "nat \<Rightarrow> real \<Rightarrow> real \<Rightarrow> real \<Rightarrow> real \<Rightarrow> request" where
  "Request i c m p now =
     \<lparr>id_r = i, cpuLoad = c, memoryLoad = m, processingTime = p, startTime = now\<rparr>"

definition isComplete :: "real \<Rightarrow> request \<Rightarrow> bool" where
  "isComplete now req = (now - startTime req \<ge> processingTime req)"

subsection \<open>Server\<close>

record server =
  requests :: "request list"
  maxCpu :: real
  maxMemory :: real
  rejectedRequests :: nat
  completedRequests :: nat
  totalResponseTime :: real

definition Server :: server where
  "Server = \<lparr>requests = [], maxCpu = 100, maxMemory = 100, rejectedRequests = 0,
     completedRequests = 0, totalResponseTime = 0\<rparr>"

definition getAverageResponseTime :: "server \<Rightarrow> real" where
  "getAverageResponseTime sv =
     (if completedRequests sv = 0 then 0
      else totalResponseTime sv / real (completedRequests sv))"

record load =
  cpu :: real
  memory :: real

definition getCurrentLoad :: "server \<Rightarrow> load" where
  "getCurrentLoad sv =
     \<lparr>cpu = foldl (\<lambda>sum req. sum + cpuLoad req) 0 (requests sv),
      memory = foldl (\<lambda>sum req. sum + memoryLoad req) 0 (requests sv)\<rparr>"

definition canHandleRequest :: "server \<Rightarrow> request \<Rightarrow> bool" where
  "canHandleRequest sv req =
     (cpu (getCurrentLoad sv) + cpuLoad req \<le> maxCpu sv \<and>
      memory (getCurrentLoad sv) + memoryLoad req \<le> maxMemory sv)"

definition addRequest :: "server \<Rightarrow> request \<Rightarrow> server" where
  "addRequest sv req = sv\<lparr>requests := requests sv @ [req]\<rparr>"

text \<open>
  \<^verbatim>\<open>updateRequests\<close> filters the active requests twice, and each pass reads the clock:
  \<open>t1\<close> is the time of the counting pass, \<open>t2\<close> that of the removing pass.
\<close>

definition updateRequests :: "real \<Rightarrow> real \<Rightarrow> server \<Rightarrow> server" where
  "updateRequests t1 t2 sv =
     (let completedNow = filter (isComplete t1) (requests sv);
          counted = foldl (\<lambda>s req. s\<lparr>completedRequests := completedRequests s + 1,
                       totalResponseTime := totalResponseTime s + processingTime req\<rparr>)
                     sv completedNow
      in counted\<lparr>requests := filter (\<lambda>req. \<not> isComplete t2 req) (requests sv)\<rparr>)"

subsection \<open>The selection algorithms\<close>

text \<open>
  Round Robin and Random test \<^verbatim>\<open>servers[i].canHandleRequest\<close>: the method itself, not a
  call of it. A method is a function object, and a function object is truthy.
\<close>

definition canHandleRequest_ref :: "server \<Rightarrow> bool" where
  "canHandleRequest_ref sv = True"

text \<open>The loop of Round Robin over \<open>i = 0, ..., servers.length - 1\<close>.\<close>

fun RoundRobin_scan :: "server list \<Rightarrow> jsnum \<Rightarrow> nat list \<Rightarrow> error + jsnum" where
  "RoundRobin_scan svs currentIndex [] = Inr currentIndex"
| "RoundRobin_scan svs currentIndex (i # is) =
     (let serverIndex = js_rem (js_add currentIndex (int i)) (length svs) in
      case js_index svs serverIndex of
        None \<Rightarrow> Inl TypeError
      | Some sv \<Rightarrow>
          if canHandleRequest_ref sv then Inr serverIndex
          else RoundRobin_scan svs currentIndex is)"

definition RoundRobin_selectServer :: "server list \<Rightarrow> jsnum \<Rightarrow> error + jsnum" where
  "RoundRobin_selectServer svs currentIndex =
     RoundRobin_scan svs currentIndex [0..<length svs]"

text \<open>
  The loop of Random: \<open>tried\<close> is the set of indices tried so far, \<open>rnd\<close> the draws to
  come. The loop is left in its first round, by \<^verbatim>\<open>return\<close> or by an exception, so it
  terminates.
\<close>

function Random_loop :: "server list \<Rightarrow> int list \<Rightarrow> real stream \<Rightarrow> error + jsnum" where
  "Random_loop svs tried rnd =
     (if length tried < length svs then
        (case js_index svs (random_index (shd rnd) (length svs)) of
           None \<Rightarrow> Inl TypeError
         | Some sv \<Rightarrow>
             if canHandleRequest_ref sv then Inr (random_index (shd rnd) (length svs))
             else Random_loop svs (List.insert \<lfloor>shd rnd * real (length svs)\<rfloor> tried) (stl rnd))
      else Inr (random_index (shd rnd) (length svs)))"
  by pat_completeness auto
termination
  by (relation "{}") (simp_all add: canHandleRequest_ref_def)

definition Random_selectServer :: "server list \<Rightarrow> real stream \<Rightarrow> error + jsnum" where
  "Random_selectServer svs rnd = Random_loop svs [] rnd"

text \<open>
  The three remaining algorithms run the same \<^verbatim>\<open>forEach\<close> loop over the servers, each
  with its own score: they keep the least score seen so far, \<^verbatim>\<open>Infinity\<close> at the start,
  and the index where it was seen, \<open>0\<close> at the start.
\<close>

datatype bound = Infinity | Fin real

fun less_bound :: "real \<Rightarrow> bound \<Rightarrow> bool" where
  "less_bound x Infinity = True"
| "less_bound x (Fin m) = (x < m)"

fun forEach_min :: "(server \<Rightarrow> real) \<Rightarrow> server list \<Rightarrow> nat \<Rightarrow> bound \<Rightarrow> nat \<Rightarrow> nat" where
  "forEach_min score [] index minSoFar selectedIndex = selectedIndex"
| "forEach_min score (sv # svs) index minSoFar selectedIndex =
     (if less_bound (score sv) minSoFar
      then forEach_min score svs (index + 1) (Fin (score sv)) index
      else forEach_min score svs (index + 1) minSoFar selectedIndex)"

definition requestsLength :: "server \<Rightarrow> real" where
  "requestsLength sv = real (length (requests sv))"

definition LeastRequests_selectServer :: "server list \<Rightarrow> error + jsnum" where
  "LeastRequests_selectServer svs = Inr (Num (int (forEach_min requestsLength svs 0 Infinity 0)))"

definition effectiveTime :: "server \<Rightarrow> real" where
  "effectiveTime sv =
     (let avgResponseTime = getAverageResponseTime sv in
      if avgResponseTime = 0 then real (length (requests sv)) * 100 else avgResponseTime)"

definition LeastResponseTime_selectServer :: "server list \<Rightarrow> error + jsnum" where
  "LeastResponseTime_selectServer svs =
     Inr (Num (int (forEach_min effectiveTime svs 0 Infinity 0)))"

definition currentCpu :: "server \<Rightarrow> real" where
  "currentCpu sv = cpu (getCurrentLoad sv)"

definition Dynamic_selectServer :: "server list \<Rightarrow> error + jsnum" where
  "Dynamic_selectServer svs = Inr (Num (int (forEach_min currentCpu svs 0 Infinity 0)))"

text \<open>
  The algorithm object of the simulation: the abstract base class, one of its five
  subclasses, or any other object with a \<^verbatim>\<open>selectServer\<close> method (the field is
  assigned from outside the class).
\<close>

datatype algorithm =
    LoadBalancerAlgorithm
  | RoundRobinAlgorithm
  | RandomAlgorithm
  | LeastRequestsAlgorithm
  | LeastResponseTimeAlgorithm
  | DynamicAlgorithm
  | CustomAlgorithm "server list \<Rightarrow> jsnum \<Rightarrow> error + jsnum"

fun selectServer :: "algorithm \<Rightarrow> real stream \<Rightarrow> server list \<Rightarrow> jsnum \<Rightarrow> error + jsnum" where
  "selectServer LoadBalancerAlgorithm rnd svs currentIndex = Inl NotImplemented"
| "selectServer RoundRobinAlgorithm rnd svs currentIndex = RoundRobin_selectServer svs currentIndex"
| "selectServer RandomAlgorithm rnd svs currentIndex = Random_selectServer svs rnd"
| "selectServer LeastRequestsAlgorithm rnd svs currentIndex = LeastRequests_selectServer svs"
| "selectServer LeastResponseTimeAlgorithm rnd svs currentIndex = LeastResponseTime_selectServer svs"
| "selectServer DynamicAlgorithm rnd svs currentIndex = Dynamic_selectServer svs"
| "selectServer (CustomAlgorithm f) rnd svs currentIndex = f svs currentIndex"

fun builtin :: "algorithm \<Rightarrow> bool" where
  "builtin LoadBalancerAlgorithm = False"
| "builtin (CustomAlgorithm f) = False"
| "builtin a = True"

subsection \<open>The simulation\<close>

record requestType =
  type_cpu :: real
  type_memory :: real

text \<open>The catalogue \<^verbatim>\<open>this.requestTypes\<close> (the colours are left out).\<close>

definition requestTypes :: "requestType list" where
  "requestTypes =
     [\<lparr>type_cpu = 5, type_memory = 3\<rparr>, \<lparr>type_cpu = 8, type_memory = 4\<rparr>,
      \<lparr>type_cpu = 4, type_memory = 8\<rparr>, \<lparr>type_cpu = 10, type_memory = 6\<rparr>]"

record simulation =
  algorithm :: algorithm
  numServers :: nat
  servers :: "server list"
  currentServerIndex :: jsnum
  requestCount :: nat
  cpuBalanceHistory :: "number list"
  memoryBalanceHistory :: "number list"
  maxDataPoints :: nat
  totalRejectedRequests :: nat

text \<open>\<^verbatim>\<open>initializeServers\<close> replaces the servers by \<open>numServers\<close> new ones.\<close>

definition initializeServers :: "simulation \<Rightarrow> simulation" where
  "initializeServers s = s\<lparr>servers := replicate (numServers s) Server\<rparr>"

text \<open>
  The fields as the constructor sets them, with the servers of \<^verbatim>\<open>setupScene\<close>. The
  constructor then starts the frame loop by a first call of \<^verbatim>\<open>animate\<close>.
\<close>

definition LoadBalancerSimulation :: "algorithm \<Rightarrow> simulation" where
  "LoadBalancerSimulation a =
     initializeServers
       \<lparr>algorithm = a, numServers = 4, servers = [], currentServerIndex = Num 0,
        requestCount = 0, cpuBalanceHistory = [], memoryBalanceHistory = [],
        maxDataPoints = 50, totalRejectedRequests = 0\<rparr>"

text \<open>
  \<^verbatim>\<open>createRequest\<close>. The draws of \<open>rnd\<close> are used in the order of the calls of
  \<^verbatim>\<open>Math.random()\<close>: the request type, the duration, then the algorithm's own. An
  exception leaves the state as it was when it was raised: \<open>Inl (e, s')\<close>.
\<close>

definition createRequest ::
  "real stream \<Rightarrow> real \<Rightarrow> simulation \<Rightarrow> (error \<times> simulation) + simulation" where
  "createRequest rnd now s =
     (let s1 = s\<lparr>requestCount := requestCount s + 1\<rparr> in
      case js_index requestTypes (random_index (shd rnd) (length requestTypes)) of
        None \<Rightarrow> Inl (TypeError, s1)
      | Some requestType \<Rightarrow>
          let request = Request (requestCount s) (type_cpu requestType) (type_memory requestType)
                          (shd (stl rnd) * 499 + 1) now
          in case selectServer (algorithm s) (stl (stl rnd)) (servers s) (currentServerIndex s) of
               Inl e \<Rightarrow> Inl (e, s1)
             | Inr serverIndex \<Rightarrow>
                 (case js_index (servers s) serverIndex of
                    None \<Rightarrow> Inl (TypeError, s1)
                  | Some sv \<Rightarrow>
                      (case serverIndex of
                         NaN \<Rightarrow> Inl (TypeError, s1)
                       | Num i \<Rightarrow>
                           if canHandleRequest sv request then
                             Inr (s1\<lparr>currentServerIndex := js_rem (js_add serverIndex 1) (numServers s),
                                     servers := list_update (servers s) (nat i) (addRequest sv request)\<rparr>)
                           else
                             Inr (s1\<lparr>totalRejectedRequests := totalRejectedRequests s + 1,
                                     servers := list_update (servers s) (nat i)
                                        (sv\<lparr>rejectedRequests := rejectedRequests sv + 1\<rparr>)\<rparr>))))"

text \<open>The state that an operation leaves behind, whether it raised or returned.\<close>

fun state_after :: "(error \<times> simulation) + simulation \<Rightarrow> simulation" where
  "state_after (Inl (e, s)) = s"
| "state_after (Inr s) = s"

text \<open>
  \<^verbatim>\<open>calculateBalanceScore\<close>, on an array of numbers. The length of the array is a
  number without rounding.
\<close>

definition calculateBalanceScore :: "number list \<Rightarrow> number" where
  "calculateBalanceScore values =
     (if length values = 0 then Finite 100
      else let mean = js_divide (foldl js_plus (Finite 0) values) (Finite (real (length values))) in
        if mean = Finite 0 then Finite 100
        else let maxDeviation = Math_max (map (\<lambda>v. Math_abs (js_minus v mean)) values);
                 score = js_max (Finite 0)
                   (js_times (Finite 100)
                      (js_minus (Finite 1) (js_divide maxDeviation (js_times mean (Finite 2)))))
             in Math_round score)"

text \<open>\<^verbatim>\<open>updateStatsDisplay\<close>: the sample and the two history arrays.\<close>

definition updateStatsDisplay :: "simulation \<Rightarrow> simulation" where
  "updateStatsDisplay s =
     (let cpuLoads = map (\<lambda>sv. Finite (cpu (getCurrentLoad sv))) (servers s);
          memoryLoads = map (\<lambda>sv. Finite (memory (getCurrentLoad sv))) (servers s);
          cpuBalance = calculateBalanceScore cpuLoads;
          memoryBalance = calculateBalanceScore memoryLoads;
          s1 = s\<lparr>cpuBalanceHistory := cpuBalanceHistory s @ [cpuBalance],
                 memoryBalanceHistory := memoryBalanceHistory s @ [memoryBalance]\<rparr>
      in if length (cpuBalanceHistory s1) > maxDataPoints s1
         then s1\<lparr>cpuBalanceHistory := tl (cpuBalanceHistory s1),
                 memoryBalanceHistory := tl (memoryBalanceHistory s1)\<rparr>
         else s1)"

text \<open>
  \<^verbatim>\<open>updateServerVisuals\<close> samples once more and then lets every server reclaim its
  completed requests; \<open>clock i\<close> gives the two times at which server \<open>i\<close> reads the clock.
\<close>

fun updateAll :: "(nat \<Rightarrow> real \<times> real) \<Rightarrow> nat \<Rightarrow> server list \<Rightarrow> server list" where
  "updateAll clock i [] = []"
| "updateAll clock i (sv # svs) =
     updateRequests (fst (clock i)) (snd (clock i)) sv # updateAll clock (Suc i) svs"

definition updateServerVisuals :: "(nat \<Rightarrow> real \<times> real) \<Rightarrow> simulation \<Rightarrow> simulation" where
  "updateServerVisuals clock s =
     (let s1 = updateStatsDisplay s in s1\<lparr>servers := updateAll clock 0 (servers s1)\<rparr>)"

definition animate :: "(nat \<Rightarrow> real \<times> real) \<Rightarrow> simulation \<Rightarrow> simulation" where
  "animate clock s = updateServerVisuals clock (updateStatsDisplay s)"

definition setNumServers :: "nat \<Rightarrow> simulation \<Rightarrow> simulation" where
  "setNumServers count s = initializeServers (s\<lparr>numServers := count, currentServerIndex := Num 0\<rparr>)"

definition clearRequests :: "simulation \<Rightarrow> simulation" where
  "clearRequests s =
     s\<lparr>servers := map (\<lambda>sv. sv\<lparr>requests := [], rejectedRequests := 0\<rparr>) (servers s),
       requestCount := 0,
       totalRejectedRequests := 0\<rparr>"

text \<open>
  \<^verbatim>\<open>resetSimulation\<close>, the handler of the reset button: four new servers, Round Robin,
  then \<^verbatim>\<open>clearRequests\<close>. (Stopping the timers and resetting the controls is left out.)
\<close>

definition resetSimulation :: "simulation \<Rightarrow> simulation" where
  "resetSimulation s = clearRequests ((setNumServers 4 s)\<lparr>algorithm := RoundRobinAlgorithm\<rparr>)"

text \<open>A draw of \<^verbatim>\<open>Math.random()\<close> lies in \<open>[0, 1)\<close>.\<close>

definition valid_draws :: "real stream \<Rightarrow> bool" where
  "valid_draws rnd = (\<forall>r \<in> sset rnd. 0 \<le> r \<and> r < 1)"

text \<open>
  The states of a running simulation: the constructed one, and whatever the timers, the
  frame loop and the controls make of it. The public method \<^verbatim>\<open>clearRequests\<close> and a
  single sample (the state between the two samples of a frame) are included.
\<close>

inductive reachable :: "simulation \<Rightarrow> bool" where
  constructed: "reachable (LoadBalancerSimulation a)"
| request: "reachable s \<Longrightarrow> valid_draws rnd \<Longrightarrow> reachable (state_after (createRequest rnd now s))"
| frame: "reachable s \<Longrightarrow> reachable (animate clock s)"
| server_count: "reachable s \<Longrightarrow> reachable (setNumServers count s)"
| algorithm_change: "reachable s \<Longrightarrow> reachable (s\<lparr>algorithm := a\<rparr>)"
| reset: "reachable s \<Longrightarrow> reachable (resetSimulation s)"
| cleared: "reachable s \<Longrightarrow> reachable (clearRequests s)"
| sample: "reachable s \<Longrightarrow> reachable (updateStatsDisplay s)"

subsection \<open>Notions of the specification\<close>

text \<open>
  The balance score as the specification words it, in exact arithmetic: the mean is the
  average of the values, the deviation is the largest distance of a value from the mean,
  and the score is rounded to the nearest integer.
\<close>

definition BalanceScore :: "real list \<Rightarrow> int" where
  "BalanceScore values =
     (if values = [] then 100
      else let mean = sum_list values / real (length values) in
        if mean = 0 then 100
        else let maxDeviation = Max ((\<lambda>v. \<bar>v - mean\<bar>) ` set values)
             in round (max 0 (100 * (1 - maxDeviation / (2 * mean)))))"

text \<open>\<open>k\<close> is the lowest index at which \<open>f\<close> is least over \<open>xs\<close>.\<close>

definition least_index_minimizing :: "('a \<Rightarrow> real) \<Rightarrow> 'a list \<Rightarrow> nat \<Rightarrow> bool" where
  "least_index_minimizing f xs k =
     (k < length xs \<and> (\<forall>j \<in> {0..<length xs}. f (xs ! k) \<le> f (xs ! j)) \<and>
      (\<forall>j \<in> {0..<k}. f (xs ! k) < f (xs ! j)))"

text \<open>The request that \<^verbatim>\<open>createRequest\<close> builds from the request type \<open>t\<close>.\<close>

definition newRequest :: "real stream \<Rightarrow> real \<Rightarrow> simulation \<Rightarrow> requestType \<Rightarrow> request" where
  "newRequest rnd now s t =
     Request (requestCount s) (type_cpu t) (type_memory t) (shd (stl rnd) * 499 + 1) now"

subsection \<open>Notions of double precision\<close>

text \<open>A real that is a double: rounding leaves it as it is.\<close>

definition is_double :: "real \<Rightarrow> bool" where
  "is_double x = (to_double x = Finite x)"

text \<open>The rounded magnitude in its scaled form.\<close>

definition scaled_round :: "real \<Rightarrow> real" where
  "scaled_round X = of_int (round_half_even (X / 2 ^ double_shift X)) * 2 ^ double_shift X"

text \<open>A large double: \<open>2^1023\<close>, half of the first power of 2 that overflows.\<close>

definition huge :: real where
  "huge = 2 ^ (overflow_exponent - 1)"

subsection \<open>Sample states\<close>

text \<open>
  A server that hosts ten requests of the type \<open>(10, 6)\<close>: its CPU is fully used. The
  next request, of the type \<open>(5, 3)\<close>, does not fit there.
\<close>

definition busy_server :: server where
  "busy_server =
     Server\<lparr>requests := map (\<lambda>i. Request i 10 6 500 0) [0, 1, 2, 3, 4, 5, 6, 7, 8, 9]\<rparr>"

definition probe :: request where
  "probe = Request 10 5 3 250 0"


text \<open>Draws that are all \<open>0\<close>: the first request type \<open>(5, 3)\<close> and the first index.\<close>

definition zero_draws :: "real stream" where
  "zero_draws = sconst 0"

definition half_draws :: "real stream" where
  "half_draws = sconst (1 / 2)"

text \<open>An algorithm of another making, which answers one past the last index.\<close>

definition past_the_end :: "server list \<Rightarrow> jsnum \<Rightarrow> error + jsnum" where
  "past_the_end svs currentIndex = Inr (Num (int (length svs)))"

text \<open>The simulation as constructed, after one sample.\<close>

definition sampled_once :: simulation where
  "sampled_once = updateStatsDisplay (LoadBalancerSimulation RoundRobinAlgorithm)"

text \<open>The simulation as constructed, after a first request.\<close>

definition first_admitted :: "algorithm \<Rightarrow> simulation" where
  "first_admitted a = state_after (createRequest half_draws 0 (LoadBalancerSimulation a))"


subsection \<open>Invariants\<close>

text \<open>The state of a \<^verbatim>\<open>forEach\<close> loop of \<open>forEach_min\<close> after the servers \<open>pre\<close>.\<close>

definition scanned :: "(server \<Rightarrow> real) \<Rightarrow> server list \<Rightarrow> bound \<Rightarrow> nat \<Rightarrow> bool" where
  "scanned f pre m sel =
     (case m of
        Infinity \<Rightarrow> pre = [] \<and> sel = 0
      | Fin x \<Rightarrow> x = f (pre ! sel) \<and> least_index_minimizing f pre sel)"

text \<open>What holds of every server, and of the whole state, of a running simulation.\<close>

definition server_ok :: "server \<Rightarrow> bool" where
  "server_ok sv =
     (maxCpu sv = 100 \<and> maxMemory sv = 100 \<and>
      (\<forall>r \<in> set (requests sv). 0 \<le> cpuLoad r \<and> 0 \<le> memoryLoad r \<and> 0 < processingTime r) \<and>
      sum_list (map cpuLoad (requests sv)) \<le> 100 \<and>
      sum_list (map memoryLoad (requests sv)) \<le> 100 \<and>
      0 \<le> totalResponseTime sv \<and>
      (0 < completedRequests sv \<longrightarrow> 0 < totalResponseTime sv))"

definition sim_ok :: "simulation \<Rightarrow> bool" where
  "sim_ok s =
     ((\<forall>sv \<in> set (servers s). server_ok sv) \<and>
      numServers s = length (servers s) \<and>
      (\<exists>c. currentServerIndex s = Num (int c) \<and> (c = 0 \<or> c < length (servers s))) \<and>
      maxDataPoints s = 50 \<and>
      length (cpuBalanceHistory s) = length (memoryBalanceHistory s) \<and>
      length (cpuBalanceHistory s) \<le> 50)"

section \<open>Properties\<close>

subsection \<open>Sums\<close>

lemma foldl_plus_sum_list: "foldl (\<lambda>sum x. sum + f x) a xs = a + sum_list (map f xs)"
  for a :: real
  by (induction xs arbitrary: a) simp_all

lemma getCurrentLoad_sum:
  "cpu (getCurrentLoad sv) = sum_list (map cpuLoad (requests sv))"
  "memory (getCurrentLoad sv) = sum_list (map memoryLoad (requests sv))"
  by (simp_all add: getCurrentLoad_def foldl_plus_sum_list)

subsection \<open>Rounding to double precision\<close>

lemma round_half_even_bounds:
  "\<lfloor>y\<rfloor> \<le> round_half_even y" "round_half_even y \<le> \<lfloor>y\<rfloor> + 1"
  by (simp_all add: round_half_even_def Let_def)

lemma round_half_even_int [simp]: "round_half_even (of_int k) = k"
  by (simp add: round_half_even_def)

lemma round_half_even_mono:
  assumes "y \<le> z"
  shows "round_half_even y \<le> round_half_even z"
proof (cases "\<lfloor>y\<rfloor> = \<lfloor>z\<rfloor>")
  case True
  with assms have "y - of_int \<lfloor>z\<rfloor> \<le> z - of_int \<lfloor>z\<rfloor>" by simp
  with True show ?thesis by (auto simp: round_half_even_def Let_def)
next
  case False
  with assms have "\<lfloor>y\<rfloor> < \<lfloor>z\<rfloor>" using floor_mono [of y z] by linarith
  then have "round_half_even y \<le> \<lfloor>z\<rfloor>" using round_half_even_bounds(2) [of y] by linarith
  then show ?thesis using round_half_even_bounds(1) [of z] by linarith
qed

lemma round_half_even_le_int: "y \<le> of_int k \<Longrightarrow> round_half_even y \<le> k"
  using round_half_even_mono [of y "of_int k"] by simp

lemma round_half_even_ge_int: "of_int k \<le> y \<Longrightarrow> k \<le> round_half_even y"
  using round_half_even_mono [of "of_int k" y] by simp

text \<open>The shift: bounds of the scaled magnitude.\<close>

lemma double_shift_upper:
  assumes "0 \<le> X"
  shows "X < 2 ^ (53 + double_shift X)"
proof -
  have "bitlen \<lfloor>X\<rfloor> \<le> int (53 + double_shift X)" by (simp add: double_shift_def)
  then have "\<lfloor>X\<rfloor> < 2 ^ (53 + double_shift X)"
    unfolding bitlen_le_iff_power by (simp add: nat_add_distrib)
  then have "\<lfloor>X\<rfloor> + 1 \<le> 2 ^ (53 + double_shift X)" by simp
  then have "real_of_int (\<lfloor>X\<rfloor> + 1) \<le> real_of_int (2 ^ (53 + double_shift X))"
    by (rule of_int_le_iff [THEN iffD2])
  then have "real_of_int \<lfloor>X\<rfloor> + 1 \<le> 2 ^ (53 + double_shift X)" by simp
  moreover have "X < real_of_int \<lfloor>X\<rfloor> + 1" by linarith
  ultimately show ?thesis by linarith
qed

lemma double_shift_lower:
  assumes "0 < double_shift X"
  shows "2 ^ (52 + double_shift X) \<le> X"
proof -
  from assms have "int (53 + double_shift X) \<le> bitlen \<lfloor>X\<rfloor>" by (simp add: double_shift_def)
  then have "2 ^ (52 + double_shift X) \<le> \<lfloor>X\<rfloor>"
    unfolding bitlen_ge_iff_power by (simp add: nat_add_distrib)
  then have "real_of_int (2 ^ (52 + double_shift X)) \<le> real_of_int \<lfloor>X\<rfloor>"
    by (rule of_int_le_iff [THEN iffD2])
  then show ?thesis by (simp add: order_trans [OF _ of_int_floor_le])
qed

lemma double_shift_eq:
  assumes "2 ^ (52 + t) \<le> X" "X < 2 ^ (53 + t)"
  shows "double_shift X = t"
proof -
  have X: "0 \<le> X" using assms(1) by (rule order_trans [rotated]) simp
  have "\<not> t < double_shift X"
  proof
    assume "t < double_shift X"
    then have "53 + t \<le> 52 + double_shift X" by simp
    then have "(2::real) ^ (53 + t) \<le> 2 ^ (52 + double_shift X)"
      by (intro power_increasing) simp_all
    with double_shift_lower [of X] \<open>t < double_shift X\<close> assms(2) show False by simp
  qed
  moreover have "\<not> double_shift X < t"
  proof
    assume "double_shift X < t"
    then have "53 + double_shift X \<le> 52 + t" by simp
    then have "(2::real) ^ (53 + double_shift X) \<le> 2 ^ (52 + t)"
      by (intro power_increasing) simp_all
    with double_shift_upper [OF X] assms(1) show False by simp
  qed
  ultimately show ?thesis by simp
qed

lemma double_shift_small:
  assumes "0 \<le> X" "X < 2 ^ 53"
  shows "double_shift X = 0"
proof (rule ccontr)
  assume "double_shift X \<noteq> 0"
  then have pos: "0 < double_shift X" by simp
  have "(2::real) ^ 53 \<le> 2 ^ (52 + double_shift X)"
    using pos by (intro power_increasing) simp_all
  with double_shift_lower [OF pos] assms(2) show False by simp
qed


text \<open>Rounding a magnitude.\<close>

lemma round_magnitude_nonneg:
  assumes "0 \<le> a"
  shows "0 \<le> round_magnitude a"
proof -
  have "0 \<le> a * 2 ^ quantum_exponent / 2 ^ double_shift (a * 2 ^ quantum_exponent)" using assms by simp
  then have "0 \<le> round_half_even (a * 2 ^ quantum_exponent / 2 ^ double_shift (a * 2 ^ quantum_exponent))"
    using round_half_even_ge_int [of 0] by simp
  then show ?thesis by (simp add: round_magnitude_def Let_def)
qed

text \<open>The rounded magnitude, scaled: an integer of at most 53 bits times a power of 2.\<close>

lemma round_magnitude_scaled: "round_magnitude a = scaled_round (a * 2 ^ quantum_exponent) / 2 ^ quantum_exponent"
  by (simp add: round_magnitude_def scaled_round_def Let_def)

lemma scaled_round_upper:
  assumes "0 \<le> X"
  shows "scaled_round X \<le> 2 ^ (53 + double_shift X)"
proof -
  have "X / 2 ^ double_shift X \<le> 2 ^ 53"
    using double_shift_upper [OF assms] by (simp add: power_add divide_le_eq)
  then have "round_half_even (X / 2 ^ double_shift X) \<le> 2 ^ 53"
    using round_half_even_le_int [of _ "2 ^ 53"] by simp
  then have "real_of_int (round_half_even (X / 2 ^ double_shift X)) \<le> real_of_int (2 ^ 53)"
    by (rule of_int_le_iff [THEN iffD2])
  then show ?thesis by (simp add: scaled_round_def power_add)
qed

lemma scaled_round_lower:
  assumes "0 < double_shift X"
  shows "2 ^ (52 + double_shift X) \<le> scaled_round X"
proof -
  have "2 ^ 52 \<le> X / 2 ^ double_shift X"
    using double_shift_lower [OF assms] by (simp add: power_add le_divide_eq)
  then have "2 ^ 52 \<le> round_half_even (X / 2 ^ double_shift X)"
    using round_half_even_ge_int [of "2 ^ 52"] by simp
  then have "real_of_int (2 ^ 52) \<le> real_of_int (round_half_even (X / 2 ^ double_shift X))"
    by (rule of_int_le_iff [THEN iffD2])
  then show ?thesis by (simp add: scaled_round_def power_add)
qed

lemma double_shift_mono:
  assumes "X \<le> Y"
  shows "double_shift X \<le> double_shift Y"
proof -
  have "\<lfloor>X\<rfloor> \<le> \<lfloor>Y\<rfloor>" using assms by (rule floor_mono)
  then have "bitlen \<lfloor>X\<rfloor> \<le> bitlen \<lfloor>Y\<rfloor>"
    by (simp add: bitlen_def floorlog_mono)
  then show ?thesis by (simp add: double_shift_def)
qed

lemma scaled_round_mono:
  assumes "0 \<le> X" "X \<le> Y"
  shows "scaled_round X \<le> scaled_round Y"
proof (cases "double_shift X = double_shift Y")
  case True
  have "X / 2 ^ double_shift Y \<le> Y / 2 ^ double_shift Y"
    using assms(2) by (simp add: divide_right_mono)
  then have "round_half_even (X / 2 ^ double_shift Y) \<le> round_half_even (Y / 2 ^ double_shift Y)"
    by (rule round_half_even_mono)
  then show ?thesis by (simp add: scaled_round_def True)
next
  case False
  with double_shift_mono [OF assms(2)] have lt: "double_shift X < double_shift Y" by simp
  then have "53 + double_shift X \<le> 52 + double_shift Y" by simp
  then have "(2::real) ^ (53 + double_shift X) \<le> 2 ^ (52 + double_shift Y)"
    by (intro power_increasing) simp_all
  moreover have "0 < double_shift Y" using lt by simp
  ultimately show ?thesis
    using scaled_round_upper [OF assms(1)] scaled_round_lower [of Y] by linarith
qed

lemma round_magnitude_mono:
  assumes "0 \<le> a" "a \<le> b"
  shows "round_magnitude a \<le> round_magnitude b"
proof -
  have "scaled_round (a * 2 ^ quantum_exponent) \<le> scaled_round (b * 2 ^ quantum_exponent)"
    using assms by (intro scaled_round_mono) simp_all
  then show ?thesis by (simp add: round_magnitude_scaled divide_right_mono)
qed


text \<open>Values on the grid are left as they are.\<close>

lemma scaled_round_grid:
  assumes "0 \<le> k" "k \<le> 2 ^ 53" "t = 0 \<or> 2 ^ 52 \<le> k"
  shows "scaled_round (of_int k * 2 ^ t) = of_int k * 2 ^ t"
proof (cases "k = 2 ^ 53")
  case True
  have eq: "real_of_int k * 2 ^ t = 2 ^ (52 + Suc t)" by (simp add: True power_add)
  have sh: "double_shift (2 ^ (52 + Suc t)) = Suc t"
    by (rule double_shift_eq) (simp_all add: power_strict_increasing)
  have q: "(2::real) ^ (52 + Suc t) / 2 ^ Suc t = of_int (2 ^ 52)"
    by (simp add: power_add)
  have "scaled_round (2 ^ (52 + Suc t)) =
      of_int (round_half_even (of_int (2 ^ 52))) * 2 ^ Suc t"
    unfolding scaled_round_def sh q ..
  also have "\<dots> = 2 ^ (52 + Suc t)"
    by (simp only: round_half_even_int) (simp add: power_add)
  finally show ?thesis unfolding eq .
next
  case False
  with assms(2) have lt: "k < 2 ^ 53" by simp
  then have "real_of_int k < real_of_int (2 ^ 53)" by (rule of_int_less_iff [THEN iffD2])
  then have ltr: "real_of_int k < 2 ^ 53" by simp
  have sh: "double_shift (of_int k * 2 ^ t) = t"
  proof (cases "t = 0")
    case True
    then show ?thesis using assms(1) ltr by (simp add: double_shift_small)
  next
    case False
    with assms(3) have "2 ^ 52 \<le> k" by simp
    then have "real_of_int (2 ^ 52) \<le> real_of_int k" by (rule of_int_le_iff [THEN iffD2])
    then have "2 ^ 52 \<le> real_of_int k" by simp
    then show ?thesis using ltr by (intro double_shift_eq) (simp_all add: power_add)
  qed
  show ?thesis by (simp add: scaled_round_def sh)
qed

lemma scaled_round_idem:
  assumes "0 \<le> X"
  shows "scaled_round (scaled_round X) = scaled_round X"
proof -
  let ?k = "round_half_even (X / 2 ^ double_shift X)"
  have "0 \<le> X / 2 ^ double_shift X" using assms by simp
  then have k0: "0 \<le> ?k" using round_half_even_ge_int [of 0] by simp
  have "X / 2 ^ double_shift X \<le> 2 ^ 53"
    using double_shift_upper [OF assms] by (simp add: power_add divide_le_eq)
  then have k1: "?k \<le> 2 ^ 53" using round_half_even_le_int [of _ "2 ^ 53"] by simp
  have k2: "double_shift X = 0 \<or> 2 ^ 52 \<le> ?k"
  proof (cases "double_shift X = 0")
    case False
    then have "2 ^ 52 \<le> X / 2 ^ double_shift X"
      using double_shift_lower [of X] by (simp add: power_add le_divide_eq)
    then show ?thesis using round_half_even_ge_int [of "2 ^ 52"] by simp
  qed simp
  from scaled_round_grid [OF k0 k1 k2] show ?thesis by (simp add: scaled_round_def)
qed

lemma round_magnitude_idem:
  assumes "0 \<le> a"
  shows "round_magnitude (round_magnitude a) = round_magnitude a"
  using scaled_round_idem [of "a * 2 ^ quantum_exponent"] assms by (simp add: round_magnitude_scaled)

text \<open>Evaluation: the magnitude scaled into \<open>[2^52, 2^53)\<close> is rounded to an integer.\<close>

lemma round_magnitude_eval:
  assumes "e \<le> quantum_exponent" "2 ^ 52 \<le> a * 2 ^ e" "a * 2 ^ e < 2 ^ 53"
  shows "round_magnitude a = of_int (round_half_even (a * 2 ^ e)) / 2 ^ e"
proof -
  obtain t where t: "quantum_exponent = e + t" using assms(1) by (metis le_Suc_ex)
  have X: "a * 2 ^ quantum_exponent = a * 2 ^ e * 2 ^ t" by (simp add: t power_add)
  have "double_shift (a * 2 ^ e * 2 ^ t) = t"
    using assms(2,3) by (intro double_shift_eq) (simp_all add: power_add)
  then show ?thesis
    unfolding round_magnitude_def Let_def X by (simp add: t power_add)
qed

lemma round_half_even_zero [simp]: "round_half_even 0 = 0"
  using round_half_even_int [of 0] by simp

lemma round_magnitude_zero [simp]: "round_magnitude 0 = 0"
  by (simp add: round_magnitude_def double_shift_def)

lemma round_magnitude_int:
  assumes "0 \<le> k" "k < 2 ^ 53"
  shows "round_magnitude (of_int k) = of_int k"
proof (cases "k = 0")
  case True
  then show ?thesis by simp
next
  case False
  with assms(1) have pos: "0 < k" by simp
  define e where "e = nat (53 - bitlen k)"
  have b1: "1 \<le> bitlen k" using pos bitlen_ge_iff_power [of 1 k] by simp
  have b2: "bitlen k \<le> 53" using assms(2) bitlen_le_iff_power [of k 53] by simp
  have e: "int e = 53 - bitlen k" using b2 by (simp add: e_def)
  from bitlen_bounds [OF pos] have lo: "2 ^ nat (bitlen k - 1) \<le> k" and hi: "k < 2 ^ nat (bitlen k)"
    by simp_all
  have "nat (bitlen k - 1) + e = 52" using b1 e by linarith
  then have "(2::int) ^ 52 = 2 ^ nat (bitlen k - 1) * 2 ^ e" by (simp flip: power_add)
  also have "\<dots> \<le> k * 2 ^ e" using lo by simp
  finally have "real_of_int (2 ^ 52) \<le> real_of_int (k * 2 ^ e)" by (rule of_int_le_iff [THEN iffD2])
  then have lo': "2 ^ 52 \<le> real_of_int k * 2 ^ e" by simp
  have "nat (bitlen k) + e = 53" using b1 e by linarith
  then have "(2::int) ^ 53 = 2 ^ nat (bitlen k) * 2 ^ e" by (simp flip: power_add)
  moreover have "k * 2 ^ e < 2 ^ nat (bitlen k) * 2 ^ e" using hi by simp
  ultimately have "k * 2 ^ e < 2 ^ 53" by simp
  then have "real_of_int (k * 2 ^ e) < real_of_int (2 ^ 53)" by (rule of_int_less_iff [THEN iffD2])
  then have hi': "real_of_int k * 2 ^ e < 2 ^ 53" by simp
  have "e \<le> quantum_exponent" using b1 e by (simp add: quantum_exponent_def)
  from round_magnitude_eval [OF this lo' hi']
  have "round_magnitude (of_int k) = of_int (round_half_even (of_int (k * 2 ^ e))) / 2 ^ e"
    by simp
  then show ?thesis by (simp only: round_half_even_int) simp
qed


text \<open>Rounding a real to a number.\<close>

lemma below_overflow: "a \<le> 2 ^ 53 \<Longrightarrow> a < 2 ^ overflow_exponent" for a :: real
proof -
  assume "a \<le> 2 ^ 53"
  moreover have "(2::real) ^ 53 < 2 ^ overflow_exponent"
    by (intro power_strict_increasing) (simp_all add: overflow_exponent_def)
  ultimately show ?thesis by linarith
qed

lemma pow2_not_le_zero [simp]: "\<not> (2::real) ^ n \<le> 0"
  by (simp add: not_le)

lemma to_double_zero [simp]: "to_double 0 = Finite 0"
  by (simp add: to_double_def)

lemma to_double_int:
  assumes "\<bar>k\<bar> < 2 ^ 53"
  shows "to_double (of_int k) = Finite (of_int k)"
proof -
  have m: "round_magnitude \<bar>real_of_int k\<bar> = \<bar>real_of_int k\<bar>"
    using round_magnitude_int [of "\<bar>k\<bar>"] assms by simp
  have "real_of_int \<bar>k\<bar> \<le> real_of_int (2 ^ 53)"
    using assms by (intro of_int_le_iff [THEN iffD2]) simp
  then have "\<bar>real_of_int k\<bar> < 2 ^ overflow_exponent" by (intro below_overflow) simp
  then show ?thesis by (auto simp: to_double_def Let_def m)
qed

lemma to_double_numeral [simp]:
  "numeral n < (2::int) ^ 53 \<Longrightarrow> to_double (numeral n) = Finite (numeral n)"
  using to_double_int [of "numeral n"] by simp

lemma to_double_neg_numeral [simp]:
  "numeral n < (2::int) ^ 53 \<Longrightarrow> to_double (- numeral n) = Finite (- numeral n)"
  using to_double_int [of "- numeral n"] by simp

lemma to_double_one [simp]: "to_double 1 = Finite 1"
  using to_double_int [of 1] by simp

lemma to_double_eval:
  assumes "e \<le> quantum_exponent" "2 ^ 52 \<le> a * 2 ^ e" "a * 2 ^ e < 2 ^ 53"
  shows "to_double a = Finite (of_int (round_half_even (a * 2 ^ e)) / 2 ^ e)"
proof -
  have pos: "0 < a"
  proof (rule ccontr)
    assume "\<not> 0 < a"
    then have "a * 2 ^ e \<le> 0" by (simp add: mult_le_0_iff)
    with assms(2) show False by (smt (verit) zero_less_power)
  qed
  have m: "round_magnitude a = of_int (round_half_even (a * 2 ^ e)) / 2 ^ e"
    by (rule round_magnitude_eval [OF assms])
  have "round_half_even (a * 2 ^ e) \<le> 2 ^ 53"
    using assms(3) round_half_even_le_int [of "a * 2 ^ e" "2 ^ 53"] by simp
  then have "real_of_int (round_half_even (a * 2 ^ e)) \<le> real_of_int (2 ^ 53)"
    by (rule of_int_le_iff [THEN iffD2])
  then have "real_of_int (round_half_even (a * 2 ^ e)) / 2 ^ e \<le> 2 ^ 53 / 2 ^ e"
    by (simp add: divide_right_mono)
  also have "\<dots> \<le> 2 ^ 53" by (simp add: divide_le_eq)
  finally have "real_of_int (round_half_even (a * 2 ^ e)) / 2 ^ e < 2 ^ overflow_exponent"
    by (rule below_overflow)
  then show ?thesis using pos by (simp add: to_double_def Let_def m)
qed

lemma is_double_magnitude:
  "is_double x \<longleftrightarrow> round_magnitude \<bar>x\<bar> = \<bar>x\<bar> \<and> \<bar>x\<bar> < 2 ^ overflow_exponent"
  by (auto simp: is_double_def to_double_def Let_def not_le)

lemma to_double_range:
  assumes "to_double x = Finite y"
  shows "is_double y"
proof -
  let ?m = "round_magnitude \<bar>x\<bar>"
  from assms have m: "?m < 2 ^ overflow_exponent" and y: "\<bar>y\<bar> = ?m"
    using round_magnitude_nonneg [of "\<bar>x\<bar>"]
    by (auto simp: to_double_def Let_def not_le split: if_splits)
  have "round_magnitude ?m = ?m" by (rule round_magnitude_idem) simp
  with m y show ?thesis by (simp add: is_double_magnitude)
qed

lemma to_double_nonneg:
  assumes "0 \<le> x"
  shows "to_double x = PlusInfinity \<or> (\<exists>y. to_double x = Finite y \<and> 0 \<le> y)"
  using assms round_magnitude_nonneg [of "\<bar>x\<bar>"]
  by (cases "x = 0") (auto simp: to_double_def Let_def)

lemma to_double_bounded:
  assumes "\<bar>x\<bar> \<le> c" "is_double c"
  shows "\<exists>y. to_double x = Finite y \<and> \<bar>y\<bar> \<le> c"
proof -
  have c: "0 \<le> c" using assms(1) by linarith
  with assms(2) have rc: "round_magnitude c = c" "c < 2 ^ overflow_exponent"
    by (simp_all add: is_double_magnitude)
  have "round_magnitude \<bar>x\<bar> \<le> round_magnitude c"
    using assms(1) by (intro round_magnitude_mono) simp_all
  with rc have le: "round_magnitude \<bar>x\<bar> \<le> c" by simp
  with rc(2) have "\<not> 2 ^ overflow_exponent \<le> round_magnitude \<bar>x\<bar>" by linarith
  then show ?thesis
    using le round_magnitude_nonneg [of "\<bar>x\<bar>"] by (auto simp: to_double_def Let_def)
qed

lemma to_double_at_most:
  assumes "x \<le> c" "is_double c" "0 \<le> c"
  shows "to_double x = MinusInfinity \<or> (\<exists>y. to_double x = Finite y \<and> y \<le> c)"
proof (cases "0 < x")
  case True
  with assms(1) have "\<bar>x\<bar> \<le> c" by simp
  from to_double_bounded [OF this assms(2)] show ?thesis by auto
next
  case False
  then show ?thesis
    using assms(3) round_magnitude_nonneg [of "\<bar>x\<bar>"] by (auto simp: to_double_def Let_def)
qed

lemma to_double_at_least:
  assumes "c \<le> x" "is_double c" "0 < c"
  shows "to_double x = PlusInfinity \<or> (\<exists>y. to_double x = Finite y \<and> c \<le> y)"
proof -
  from assms(2,3) have rc: "round_magnitude c = c" by (simp add: is_double_magnitude)
  have "round_magnitude c \<le> round_magnitude \<bar>x\<bar>"
    using assms(1,3) by (intro round_magnitude_mono) simp_all
  with rc have "c \<le> round_magnitude \<bar>x\<bar>" by simp
  then show ?thesis using assms(1,3) by (auto simp: to_double_def Let_def)
qed


subsection \<open>The balance score in double precision\<close>

lemma js_divide_Finite [simp]:
  "js_divide (Finite x) (Finite y) = (if y = 0 then infinity_of_sign (sgn x) else to_double (x / y))"
  "js_divide (Finite x) PlusInfinity = Finite 0"
  "js_divide (Finite x) MinusInfinity = Finite 0"
  by (simp_all add: js_divide_def)

text \<open>The steps of the score, for non-negative doubles.\<close>

lemma is_double_numeral [simp]: "numeral n < (2::int) ^ 53 \<Longrightarrow> is_double (numeral n)"
  by (simp add: is_double_def)

lemma is_double_zero [simp]: "is_double 0"
  by (simp add: is_double_def)

lemma is_double_one [simp]: "is_double 1"
  by (simp add: is_double_def)

lemma is_double_max: "is_double x \<Longrightarrow> is_double y \<Longrightarrow> is_double (max x y)"
  by (simp add: max_def)

lemma sum_from_infinity:
  assumes "\<forall>v \<in> set values. \<exists>x. v = Finite x"
  shows "foldl js_plus PlusInfinity values = PlusInfinity"
  using assms by (induction "values") auto

lemma sum_nonneg:
  assumes "\<forall>v \<in> set values. \<exists>x. v = Finite x \<and> 0 \<le> x" "0 \<le> a" "is_double a"
  shows "foldl js_plus (Finite a) values = PlusInfinity \<or>
         (\<exists>s. foldl js_plus (Finite a) values = Finite s \<and> 0 \<le> s \<and> is_double s)"
  using assms
proof (induction "values" arbitrary: a)
  case Nil
  then show ?case by simp
next
  case (Cons v vs)
  then obtain x where v: "v = Finite x" and x: "0 \<le> x" by auto
  have rest: "\<forall>v \<in> set vs. \<exists>x. v = Finite x \<and> 0 \<le> x" using Cons.prems(1) by simp
  from to_double_nonneg [of "a + x"] Cons.prems(2) x
  consider "to_double (a + x) = PlusInfinity" | y where "to_double (a + x) = Finite y" "0 \<le> y"
    by auto
  then show ?case
  proof cases
    case 1
    moreover have "foldl js_plus PlusInfinity vs = PlusInfinity"
      using rest by (intro sum_from_infinity) auto
    ultimately show ?thesis by (simp add: v)
  next
    case 2
    from Cons.IH [OF rest 2(2) to_double_range [OF 2(1)]] show ?thesis by (simp add: v 2(1))
  qed
qed

lemma max_from_finite:
  assumes "\<forall>d \<in> set ds. \<exists>x. d = Finite x \<and> 0 \<le> x" "0 \<le> a"
  shows "\<exists>D. foldl js_max (Finite a) ds = Finite D \<and> 0 \<le> D"
  using assms
proof (induction ds arbitrary: a)
  case Nil
  then show ?case by simp
next
  case (Cons d ds)
  then obtain x where d: "d = Finite x" and x: "0 \<le> x" by auto
  have "0 \<le> max a x" using x by simp
  with Cons.IH [of "max a x"] Cons.prems(1) show ?case by (simp add: d)
qed

lemma Math_max_nonneg:
  assumes "\<forall>d \<in> set ds. \<exists>x. d = Finite x \<and> 0 \<le> x" "ds \<noteq> []"
  shows "\<exists>D. Math_max ds = Finite D \<and> 0 \<le> D"
proof -
  from assms(2) obtain d ds' where ds: "ds = d # ds'" by (cases ds) auto
  with assms(1) obtain x where d: "d = Finite x" and x: "0 \<le> x" by auto
  from max_from_finite [of ds' x] assms(1) x show ?thesis
    by (simp add: Math_max_def ds d)
qed

lemma deviation_finite:
  assumes "0 \<le> x" "is_double x" "0 \<le> m" "is_double m"
  shows "\<exists>d. Math_abs (js_minus (Finite x) (Finite m)) = Finite d \<and> 0 \<le> d"
proof -
  have "\<bar>x + - m\<bar> \<le> max x m" using assms(1,3) by (auto simp: abs_le_iff max_def)
  from to_double_bounded [OF this is_double_max [OF assms(2,4)]]
  obtain y where "to_double (x + - m) = Finite y" by auto
  then show ?thesis by (simp add: js_minus_def)
qed

lemma round_percentage:
  assumes "0 \<le> z" "z \<le> 100"
  shows "\<exists>k. Math_round (Finite z) = Finite (of_int k) \<and> 0 \<le> k \<and> k \<le> 100"
proof -
  have "0 \<le> \<lfloor>z + 1 / 2\<rfloor>" using assms by simp
  moreover have "z + 1 / 2 < 101" using assms by simp
  then have "\<lfloor>z + 1 / 2\<rfloor> < 101" by (simp add: floor_less_iff)
  ultimately show ?thesis by simp
qed

lemma score_from_deviation:
  assumes "0 \<le> D" "0 < m" "is_double m"
  shows "\<exists>k. Math_round (js_max (Finite 0)
            (js_times (Finite 100)
               (js_minus (Finite 1) (js_divide (Finite D) (js_times (Finite m) (Finite 2)))))) =
          Finite (of_int k) \<and> 0 \<le> k \<and> k \<le> 100"
proof -
  let ?q = "js_divide (Finite D) (js_times (Finite m) (Finite 2))"
  let ?r = "js_minus (Finite 1) ?q"
  let ?s = "js_times (Finite 100) ?r"
  have "m \<le> m * 2" using assms(2) by simp
  from to_double_at_least [OF this assms(3,2)]
  have q: "?q = PlusInfinity \<or> (\<exists>q. ?q = Finite q \<and> 0 \<le> q)"
  proof (elim disjE exE conjE)
    assume "to_double (m * 2) = PlusInfinity"
    then show ?thesis by simp
  next
    fix p assume p: "to_double (m * 2) = Finite p" "m \<le> p"
    with assms(2) have "0 < p" by simp
    then have "0 \<le> D / p" using assms(1) by simp
    from to_double_nonneg [OF this] show ?thesis using p(1) \<open>0 < p\<close> by simp
  qed
  have r: "?r = MinusInfinity \<or> (\<exists>r. ?r = Finite r \<and> r \<le> 1)"
    using q
  proof (elim disjE exE conjE)
    assume "?q = PlusInfinity"
    then show ?thesis unfolding js_minus_def by simp
  next
    fix q assume q: "?q = Finite q" "0 \<le> q"
    then have "1 + - q \<le> 1" by simp
    from to_double_at_most [OF this] show ?thesis unfolding js_minus_def q(1) by simp
  qed
  have s: "?s = MinusInfinity \<or> (\<exists>s. ?s = Finite s \<and> s \<le> 100)"
    using r
  proof (elim disjE exE conjE)
    assume r: "?r = MinusInfinity"
    show ?thesis unfolding r by simp
  next
    fix r assume r: "?r = Finite r" "r \<le> 1"
    then have "100 * r \<le> 100" by simp
    from to_double_at_most [OF this] show ?thesis unfolding r(1) by simp
  qed
  from s show ?thesis
  proof (elim disjE exE conjE)
    assume s: "?s = MinusInfinity"
    show ?thesis unfolding s using round_percentage [of 0] by simp
  next
    fix s assume s: "?s = Finite s" "s \<le> 100"
    show ?thesis unfolding s(1) using round_percentage [of "max 0 s"] s(2) by simp
  qed
qed

lemma calculateBalanceScore_percentage:
  assumes "\<forall>v \<in> set values. \<exists>x. v = Finite x \<and> 0 \<le> x \<and> is_double x"
    and "foldl js_plus (Finite 0) values \<noteq> PlusInfinity"
  shows "\<exists>k. calculateBalanceScore values = Finite (of_int k) \<and> 0 \<le> k \<and> k \<le> 100"
proof (cases "values = []")
  case True
  then show ?thesis
    by (simp add: calculateBalanceScore_def)
next
  case False
  then have n: "0 < length values" by simp
  have "\<forall>v \<in> set values. \<exists>x. v = Finite x \<and> 0 \<le> x" using assms(1) by blast
  from sum_nonneg [OF this, of 0] assms(2)
  obtain s where s: "foldl js_plus (Finite 0) values = Finite s" "0 \<le> s" "is_double s" by auto
  let ?mean = "js_divide (Finite s) (Finite (real (length values)))"
  have "Suc 0 \<le> length values" using n by (rule Suc_leI)
  then have one: "1 \<le> real (length values)" by simp
  then have "s * 1 \<le> s * real (length values)" using s(2) by (intro mult_left_mono)
  then have "s / real (length values) \<le> s" using one s(2) False by (simp add: divide_le_eq)
  then have "\<bar>s / real (length values)\<bar> \<le> s" using s(2) by simp
  from to_double_bounded [OF this s(3)] to_double_nonneg [of "s / real (length values)"] s(2)
  obtain m where m: "to_double (s / real (length values)) = Finite m" "0 \<le> m" by auto
  then have mean: "?mean = Finite m" using n by simp
  have dm: "is_double m" using m(1) by (rule to_double_range)
  show ?thesis
  proof (cases "m = 0")
    case True
    show ?thesis
      unfolding calculateBalanceScore_def s(1) mean Let_def using False True by simp
  next
    case nz: False
    with m(2) have mpos: "0 < m" by simp
    have "\<forall>d \<in> set (map (\<lambda>v. Math_abs (js_minus v (Finite m))) values). \<exists>x. d = Finite x \<and> 0 \<le> x"
      using assms(1) deviation_finite [OF _ _ m(2) dm] by fastforce
    from Math_max_nonneg [OF this] False
    obtain D where D: "Math_max (map (\<lambda>v. Math_abs (js_minus v (Finite m))) values) = Finite D" "0 \<le> D"
      by auto
    from score_from_deviation [OF D(2) mpos dm] show ?thesis
      unfolding calculateBalanceScore_def s(1) mean Let_def D(1) using False nz by simp
  qed
qed

lemma calculateBalanceScore_zeros:
  assumes "\<forall>v \<in> set values. v = Finite 0"
  shows "calculateBalanceScore values = Finite 100"
proof -
  have "foldl js_plus (Finite 0) values = Finite 0" using assms by (induction "values") simp_all
  then show ?thesis by (simp add: calculateBalanceScore_def)
qed


text \<open>Dyadic values of at most 53 bits are doubles.\<close>

lemma scaled_round_multiple:
  assumes "0 \<le> k" "k < 2 ^ 53"
  shows "scaled_round (of_int k * 2 ^ t) = of_int k * 2 ^ t"
proof -
  let ?X = "real_of_int k * 2 ^ t"
  have X0: "0 \<le> ?X" using assms(1) by simp
  have "real_of_int k < real_of_int (2 ^ 53)" using assms(2) by (rule of_int_less_iff [THEN iffD2])
  then have "real_of_int k < 2 ^ 53" by simp
  then have upper: "?X < 2 ^ (53 + t)" by (simp add: power_add)
  have le: "double_shift ?X \<le> t"
  proof (rule ccontr)
    assume "\<not> double_shift ?X \<le> t"
    then have gt: "t < double_shift ?X" by simp
    then have "53 + t \<le> 52 + double_shift ?X" by simp
    then have "(2::real) ^ (53 + t) \<le> 2 ^ (52 + double_shift ?X)"
      by (intro power_increasing) simp_all
    moreover have "0 < double_shift ?X" using gt by simp
    ultimately show False using double_shift_lower [of ?X] upper by linarith
  qed
  then obtain d where d: "t = double_shift ?X + d" by (metis le_Suc_ex)
  have "?X / 2 ^ double_shift ?X = real_of_int k * 2 ^ d"
    by (subst (1) d) (simp add: power_add)
  also have "\<dots> = real_of_int (k * 2 ^ d)" by simp
  finally have q: "?X / 2 ^ double_shift ?X = real_of_int (k * 2 ^ d)" .
  have "scaled_round ?X = real_of_int (k * 2 ^ d) * 2 ^ double_shift ?X"
    unfolding scaled_round_def q round_half_even_int ..
  also have "\<dots> = real_of_int k * 2 ^ (double_shift ?X + d)" by (simp add: power_add)
  finally show ?thesis unfolding d [symmetric] .
qed

lemma to_double_dyadic:
  assumes "\<bar>k\<bar> < 2 ^ 53" "e \<le> quantum_exponent"
  shows "to_double (of_int k / 2 ^ e) = Finite (of_int k / 2 ^ e)"
proof -
  obtain t where t: "quantum_exponent = e + t" using assms(2) by (metis le_Suc_ex)
  let ?a = "\<bar>real_of_int k / 2 ^ e\<bar>"
  have a: "?a = real_of_int \<bar>k\<bar> / 2 ^ e" by simp
  have "?a * 2 ^ quantum_exponent = real_of_int \<bar>k\<bar> * 2 ^ t" by (simp add: a t power_add)
  then have "scaled_round (?a * 2 ^ quantum_exponent) = real_of_int \<bar>k\<bar> * 2 ^ t"
    using scaled_round_multiple [of "\<bar>k\<bar>" t] assms(1) by simp
  then have m: "round_magnitude ?a = ?a"
    unfolding round_magnitude_scaled by (simp add: a t power_add)
  have "real_of_int \<bar>k\<bar> \<le> real_of_int (2 ^ 53)"
    using assms(1) by (intro of_int_le_iff [THEN iffD2]) simp
  then have "real_of_int \<bar>k\<bar> / 2 ^ e \<le> 2 ^ 53 / 2 ^ e" by (simp add: divide_right_mono)
  also have "\<dots> \<le> 2 ^ 53" by (simp add: divide_le_eq)
  finally have "?a < 2 ^ overflow_exponent" unfolding a by (rule below_overflow)
  then have nle: "\<not> 2 ^ overflow_exponent \<le> ?a" by (simp only: not_le)
  show ?thesis
  proof (cases "0 < k")
    case True
    then have pos: "0 < real_of_int k / 2 ^ e" by simp
    from True have eq: "?a = real_of_int k / 2 ^ e" by simp
    from nle have nle': "\<not> 2 ^ overflow_exponent \<le> real_of_int k / 2 ^ e"
      unfolding eq .
    show ?thesis
      unfolding to_double_def Let_def m by (simp only: nle' pos eq if_True if_False)
  next
    case False
    then have npos: "\<not> 0 < real_of_int k / 2 ^ e" by (simp add: zero_less_divide_iff)
    from False have eq: "- ?a = real_of_int k / 2 ^ e" by simp
    show ?thesis
      unfolding to_double_def Let_def m by (simp only: nle npos eq if_True if_False)
  qed
qed

lemma js_times_commute: "js_times a b = js_times b a"
  by (cases a; cases b) (simp_all add: mult.commute)

text \<open>Two large doubles: their sum overflows.\<close>

lemma power_on_grid: "52 \<le> n \<Longrightarrow> scaled_round (2 ^ n) = 2 ^ n"
proof -
  assume "52 \<le> n"
  then obtain t where n: "n = 52 + t" by (metis le_Suc_ex)
  have "scaled_round (real_of_int (2 ^ 52) * 2 ^ t) = real_of_int (2 ^ 52) * 2 ^ t"
    by (rule scaled_round_grid) simp_all
  then show ?thesis by (simp add: n power_add)
qed

lemma round_magnitude_power: "round_magnitude (2 ^ n) = 2 ^ n"
proof -
  have "52 \<le> n + quantum_exponent" by (simp add: quantum_exponent_def)
  from power_on_grid [OF this] show ?thesis
    by (simp add: round_magnitude_scaled power_add)
qed

lemma is_double_huge: "is_double huge" "0 \<le> huge"
proof -
  have "(2::real) ^ (overflow_exponent - 1) < 2 ^ overflow_exponent"
    by (intro power_strict_increasing) (simp_all add: overflow_exponent_def)
  then show "is_double huge"
    by (simp add: is_double_magnitude huge_def round_magnitude_power)
  show "0 \<le> huge" by (simp add: huge_def)
qed

lemma huge_plus_huge: "to_double (huge + huge) = PlusInfinity"
proof -
  have "huge + huge = 2 ^ Suc (overflow_exponent - 1)" by (simp add: huge_def)
  also have "Suc (overflow_exponent - 1) = overflow_exponent" by (simp add: overflow_exponent_def)
  finally have eq: "huge + huge = 2 ^ overflow_exponent" .
  show ?thesis unfolding eq to_double_def Let_def by (simp add: round_magnitude_power)
qed

lemma twice_huge: "to_double (2 * huge) = PlusInfinity"
  using huge_plus_huge by simp

lemma to_double_huge: "to_double huge = Finite huge"
  using is_double_huge(1) by (simp add: is_double_def)

lemma score_of_huge: "calculateBalanceScore [Finite huge, Finite huge] = NotANumber"
proof -
  have sum: "foldl js_plus (Finite 0) [Finite huge, Finite huge] = PlusInfinity"
    by (simp add: to_double_huge twice_huge)
  show ?thesis
    unfolding calculateBalanceScore_def Let_def sum
    by (simp add: js_divide_def js_minus_def Math_max_def)
qed

lemma quotient_17_40: "to_double (17 / 40) = Finite (7656119366529843 / 2 ^ 54)"
proof -
  have "to_double (17 / 40) = Finite (of_int (round_half_even (17 / 40 * 2 ^ 54)) / 2 ^ 54)"
    by (rule to_double_eval) (simp_all add: quantum_exponent_def)
  moreover have "round_half_even (17 / 40 * 2 ^ 54) = 7656119366529843"
    by (simp add: round_half_even_def)
  ultimately show ?thesis by simp
qed

lemma difference_17_40:
  "to_double (1 - 7656119366529843 / 2 ^ 54) = Finite (5179139571476070 / 2 ^ 53)"
proof -
  let ?a = "1 - 7656119366529843 / 2 ^ 54 :: real"
  have "to_double ?a = Finite (of_int (round_half_even (?a * 2 ^ 53)) / 2 ^ 53)"
    by (rule to_double_eval) (simp_all add: quantum_exponent_def)
  moreover have "round_half_even (?a * 2 ^ 53) = 5179139571476070"
    by (simp add: round_half_even_def)
  ultimately show ?thesis by simp
qed

lemma product_17_40:
  "to_double (100 * (5179139571476070 / 2 ^ 53)) = Finite (8092405580431359 / 2 ^ 47)"
proof -
  let ?a = "100 * (5179139571476070 / 2 ^ 53) :: real"
  have "to_double ?a = Finite (of_int (round_half_even (?a * 2 ^ 47)) / 2 ^ 47)"
    by (rule to_double_eval) (simp_all add: quantum_exponent_def)
  moreover have "round_half_even (?a * 2 ^ 47) = 8092405580431359"
    by (simp add: round_half_even_def)
  ultimately show ?thesis by simp
qed

lemma score_3_37: "calculateBalanceScore [Finite 3, Finite 37] = Finite 57"
proof -
  have mean: "js_divide (foldl js_plus (Finite 0) [Finite 3, Finite 37]) (Finite (real (length [Finite 3, Finite 37]))) = Finite 20"
    by simp
  have dev: "Math_max (map (\<lambda>v. Math_abs (js_minus v (Finite 20))) [Finite 3, Finite 37]) = Finite 17"
    by (simp add: Math_max_def js_minus_def)
  have "js_divide (Finite 17) (js_times (Finite 20) (Finite 2)) = Finite (7656119366529843 / 2 ^ 54)"
    using quotient_17_40 by simp
  then have "js_times (Finite 100) (js_minus (Finite 1) (js_divide (Finite 17) (js_times (Finite 20) (Finite 2))))
      = Finite (8092405580431359 / 2 ^ 47)"
    using difference_17_40 product_17_40 by (simp add: js_minus_def)
  then show ?thesis
    unfolding calculateBalanceScore_def Let_def mean dev by simp
qed

lemma exact_3_37: "BalanceScore [3, 37] = 58"
  by (simp add: BalanceScore_def round_def)




lemma mean_0_4_12: "to_double (16 / 3) = Finite (6004799503160661 / 2 ^ 50)"
proof -
  have "to_double (16 / 3) = Finite (of_int (round_half_even (16 / 3 * 2 ^ 50)) / 2 ^ 50)"
    by (rule to_double_eval) (simp_all add: quantum_exponent_def)
  moreover have "round_half_even (16 / 3 * 2 ^ 50) = 6004799503160661"
    by (simp add: round_half_even_def)
  ultimately show ?thesis by simp
qed

lemma deviations_0_4_12:
  "to_double (0 + - (6004799503160661 / 2 ^ 50)) = Finite (- 6004799503160661 / 2 ^ 50)"
  "to_double (4 + - (6004799503160661 / 2 ^ 50)) = Finite (- 1501199875790165 / 2 ^ 50)"
  "to_double (12 + - (6004799503160661 / 2 ^ 50)) = Finite (7505999378950827 / 2 ^ 50)"
  "to_double (6004799503160661 / 2 ^ 50 * 2) = Finite (6004799503160661 / 2 ^ 49)"
proof -
  have eq: "0 + - (6004799503160661 / 2 ^ 50) = real_of_int (- 6004799503160661) / 2 ^ 50"
    "4 + - (6004799503160661 / 2 ^ 50) = real_of_int (- 1501199875790165) / 2 ^ 50"
    "12 + - (6004799503160661 / 2 ^ 50) = real_of_int 7505999378950827 / 2 ^ 50"
    "6004799503160661 / 2 ^ 50 * 2 = real_of_int 6004799503160661 / 2 ^ 49"
    by simp_all
  have "to_double (real_of_int (- 6004799503160661) / 2 ^ 50) = Finite (real_of_int (- 6004799503160661) / 2 ^ 50)"
    by (rule to_double_dyadic) (simp_all add: quantum_exponent_def)
  then show "to_double (0 + - (6004799503160661 / 2 ^ 50)) = Finite (- 6004799503160661 / 2 ^ 50)"
    unfolding eq(1) by simp
  have "to_double (real_of_int (- 1501199875790165) / 2 ^ 50) = Finite (real_of_int (- 1501199875790165) / 2 ^ 50)"
    by (rule to_double_dyadic) (simp_all add: quantum_exponent_def)
  then show "to_double (4 + - (6004799503160661 / 2 ^ 50)) = Finite (- 1501199875790165 / 2 ^ 50)"
    unfolding eq(2) by simp
  have "to_double (real_of_int 7505999378950827 / 2 ^ 50) = Finite (real_of_int 7505999378950827 / 2 ^ 50)"
    by (rule to_double_dyadic) (simp_all add: quantum_exponent_def)
  then show "to_double (12 + - (6004799503160661 / 2 ^ 50)) = Finite (7505999378950827 / 2 ^ 50)"
    unfolding eq(3) by simp
  have "to_double (real_of_int 6004799503160661 / 2 ^ 49) = Finite (real_of_int 6004799503160661 / 2 ^ 49)"
    by (rule to_double_dyadic) (simp_all add: quantum_exponent_def)
  then show "to_double (6004799503160661 / 2 ^ 50 * 2) = Finite (6004799503160661 / 2 ^ 49)"
    unfolding eq(4) by simp
qed

lemma quotient_0_4_12:
  "to_double (7505999378950827 / 2 ^ 50 / (6004799503160661 / 2 ^ 49)) =
     Finite (5629499534213121 / 2 ^ 53)"
proof -
  let ?a = "7505999378950827 / 2 ^ 50 / (6004799503160661 / 2 ^ 49) :: real"
  have "to_double ?a = Finite (of_int (round_half_even (?a * 2 ^ 53)) / 2 ^ 53)"
    by (rule to_double_eval) (simp_all add: quantum_exponent_def)
  moreover have "round_half_even (?a * 2 ^ 53) = 5629499534213121"
    by (simp add: round_half_even_def)
  ultimately show ?thesis by simp
qed

lemma difference_0_4_12:
  "to_double (1 + - (5629499534213121 / 2 ^ 53)) = Finite (3377699720527871 / 2 ^ 53)"
proof -
  have eq: "1 + - (5629499534213121 / 2 ^ 53) = real_of_int 3377699720527871 / 2 ^ 53"
    by simp
  have "to_double (real_of_int 3377699720527871 / 2 ^ 53) = Finite (real_of_int 3377699720527871 / 2 ^ 53)"
    by (rule to_double_dyadic) (simp_all add: quantum_exponent_def)
  then show ?thesis unfolding eq by simp
qed

lemma product_0_4_12:
  "to_double (100 * (3377699720527871 / 2 ^ 53)) = Finite (5277655813324798 / 2 ^ 47)"
proof -
  let ?a = "100 * (3377699720527871 / 2 ^ 53) :: real"
  have "to_double ?a = Finite (of_int (round_half_even (?a * 2 ^ 47)) / 2 ^ 47)"
    by (rule to_double_eval) (simp_all add: quantum_exponent_def)
  moreover have "round_half_even (?a * 2 ^ 47) = 5277655813324798"
    by (simp add: round_half_even_def)
  ultimately show ?thesis by simp
qed

lemma score_0_4_12: "calculateBalanceScore [Finite 0, Finite 4, Finite 12] = Finite 37"
proof -
  let ?M = "Finite (6004799503160661 / 2 ^ 50)"
  have mean: "js_divide (foldl js_plus (Finite 0) [Finite 0, Finite 4, Finite 12])
      (Finite (real (length [Finite 0, Finite 4, Finite 12]))) = ?M"
    using mean_0_4_12 by simp
  have dev: "Math_max (map (\<lambda>v. Math_abs (js_minus v ?M)) [Finite 0, Finite 4, Finite 12]) =
      Finite (7505999378950827 / 2 ^ 50)"
    using deviations_0_4_12(1,2,3) by (simp add: Math_max_def js_minus_def)
  have "js_divide (Finite (7505999378950827 / 2 ^ 50)) (js_times ?M (Finite 2)) =
      Finite (5629499534213121 / 2 ^ 53)"
    using deviations_0_4_12(4) quotient_0_4_12 by simp
  then have "js_times (Finite 100) (js_minus (Finite 1)
      (js_divide (Finite (7505999378950827 / 2 ^ 50)) (js_times ?M (Finite 2)))) =
      Finite (5277655813324798 / 2 ^ 47)"
    using difference_0_4_12 product_0_4_12 by (simp add: js_minus_def)
  then show ?thesis
    unfolding calculateBalanceScore_def Let_def mean dev by simp
qed

lemma exact_0_4_12: "BalanceScore [0, 4, 12] = 38"
  by (simp add: BalanceScore_def round_def)

lemma calculateBalanceScore_unfold:
  assumes "values \<noteq> []"
  shows "calculateBalanceScore values =
     (let mean = js_divide (foldl js_plus (Finite 0) values) (Finite (real (length values)));
          maxDeviation = Math_max (map (\<lambda>v. Math_abs (js_minus v mean)) values)
      in if mean = Finite 0 then Finite 100
         else Math_round (js_max (Finite 0) (js_times (Finite 100)
                (js_minus (Finite 1) (js_divide maxDeviation (js_times (Finite 2) mean))))))"
  using assms
  by (simp add: calculateBalanceScore_def Let_def js_times_commute [of "Finite 2"])

text \<open>
  Claim C6, as amended. \<^verbatim>\<open>calculateBalanceScore\<close> returns 100 for the empty list.
  Otherwise, with every operation rounded to the nearest double, the mean is the sum of the
  values divided by their number; it returns 100 when the mean is 0, and else
  \<^verbatim>\<open>Math.round\<close> of \<open>max(0, 100 * (1 - maxDeviation / (2 * mean)))\<close>, where the
  deviation is the largest \<open>|v - mean|\<close>. This need not be the rounding of the exact
  score. For finite non-negative values whose sum does not overflow the result is an
  integer between 0 and 100, and it is 100 when every value is 0, the empty list
  included.
\<close>

theorem calculateBalanceScore_in_double_precision:
  "calculateBalanceScore [] = Finite 100 \<and>
   (values \<noteq> [] \<longrightarrow>
      calculateBalanceScore values =
        (let mean = js_divide (foldl js_plus (Finite 0) values) (Finite (real (length values)));
             maxDeviation = Math_max (map (\<lambda>v. Math_abs (js_minus v mean)) values)
         in if mean = Finite 0 then Finite 100
            else Math_round (js_max (Finite 0) (js_times (Finite 100)
                   (js_minus (Finite 1) (js_divide maxDeviation (js_times (Finite 2) mean))))))) \<and>
   ((\<forall>v \<in> set values. \<exists>x. v = Finite x \<and> 0 \<le> x \<and> is_double x) \<and>
      foldl js_plus (Finite 0) values \<noteq> PlusInfinity \<longrightarrow>
      (\<exists>k. calculateBalanceScore values = Finite (of_int k) \<and> 0 \<le> k \<and> k \<le> 100)) \<and>
   ((\<forall>v \<in> set values. v = Finite 0) \<longrightarrow> calculateBalanceScore values = Finite 100)"
proof -
  have "calculateBalanceScore [] = Finite 100" by (simp add: calculateBalanceScore_def)
  then show ?thesis
    using calculateBalanceScore_unfold [of "values"]
      calculateBalanceScore_percentage [of "values"] calculateBalanceScore_zeros [of "values"]
    by blast
qed

theorem calculateBalanceScore_in_double_precision_witness:
  "calculateBalanceScore [] = Finite 100 \<and>
   is_double 3 \<and> is_double 37 \<and>
   foldl js_plus (Finite 0) [Finite 3, Finite 37] = Finite 40 \<and>
   (\<exists>k. calculateBalanceScore [Finite 3, Finite 37] = Finite (of_int k) \<and> 0 \<le> k \<and> k \<le> 100) \<and>
   calculateBalanceScore [Finite 0, Finite 0] = Finite 100"
proof -
  have d: "is_double 3" "is_double 37" by simp_all
  have s: "foldl js_plus (Finite 0) [Finite 3, Finite 37] = Finite 40" by simp
  have "\<forall>v \<in> set [Finite 3, Finite 37]. \<exists>x. v = Finite x \<and> 0 \<le> x \<and> is_double x"
    using d by simp
  moreover have "foldl js_plus (Finite 0) [Finite 3, Finite 37] \<noteq> PlusInfinity"
    unfolding s by simp
  ultimately have "\<exists>k. calculateBalanceScore [Finite 3, Finite 37] = Finite (of_int k) \<and>
      0 \<le> k \<and> k \<le> 100"
    using calculateBalanceScore_in_double_precision [of "[Finite 3, Finite 37]"] by blast
  moreover have "calculateBalanceScore [Finite 0, Finite 0] = Finite 100"
    using calculateBalanceScore_in_double_precision [of "[Finite 0, Finite 0]"] by simp
  moreover have "calculateBalanceScore [] = Finite 100"
    using calculateBalanceScore_in_double_precision [of "[]"] by blast
  ultimately show ?thesis using d s by blast
qed

text \<open>
  The claim as stated fails. For the loads 3 and 37 the exact score is 57.5, which rounds
  to 58; in double precision \<open>1 - 17 / 40\<close> falls below 0.575, the score is
  57.49999999999999, and 57 is returned. Likewise 37, not 38, for the loads 0, 4 and 12.
  And two non-negative doubles whose sum overflows give \<^verbatim>\<open>NaN\<close>.
\<close>

theorem calculateBalanceScore_exact_counterexample:
  "calculateBalanceScore [Finite 3, Finite 37] = Finite 57 \<and> BalanceScore [3, 37] = 58 \<and>
   calculateBalanceScore [Finite 0, Finite 4, Finite 12] = Finite 37 \<and>
   BalanceScore [0, 4, 12] = 38 \<and>
   0 \<le> huge \<and> is_double huge \<and>
   calculateBalanceScore [Finite huge, Finite huge] = NotANumber"
  using score_3_37 exact_3_37 score_0_4_12 exact_0_4_12 is_double_huge score_of_huge
  by blast

subsection \<open>Servers keep their invariant\<close>

lemma server_ok_Server: "server_ok Server"
  by (simp add: server_ok_def Server_def)

lemma counted_fields:
  "foldl (\<lambda>s req. s\<lparr>completedRequests := completedRequests s + 1,
       totalResponseTime := totalResponseTime s + processingTime req\<rparr>) sv xs =
   sv\<lparr>completedRequests := completedRequests sv + length xs,
      totalResponseTime := totalResponseTime sv + sum_list (map processingTime xs)\<rparr>"
  by (induction xs arbitrary: sv) (simp_all add: add.assoc)

lemma updateRequests_fields:
  "requests (updateRequests t1 t2 sv) = filter (\<lambda>req. \<not> isComplete t2 req) (requests sv)"
  "maxCpu (updateRequests t1 t2 sv) = maxCpu sv"
  "maxMemory (updateRequests t1 t2 sv) = maxMemory sv"
  "rejectedRequests (updateRequests t1 t2 sv) = rejectedRequests sv"
  "completedRequests (updateRequests t1 t2 sv) =
     completedRequests sv + length (filter (isComplete t1) (requests sv))"
  "totalResponseTime (updateRequests t1 t2 sv) =
     totalResponseTime sv + sum_list (map processingTime (filter (isComplete t1) (requests sv)))"
  unfolding updateRequests_def Let_def counted_fields by simp_all

lemma sum_list_filter_le:
  fixes f :: "'a \<Rightarrow> real"
  assumes "\<forall>x \<in> set xs. 0 \<le> f x"
  shows "sum_list (map f (filter P xs)) \<le> sum_list (map f xs)"
  using assms by (induction xs) (auto intro: add_increasing)

lemma sum_list_pos_nonempty:
  fixes f :: "'a \<Rightarrow> real"
  assumes "\<forall>x \<in> set xs. 0 < f x" "xs \<noteq> []"
  shows "0 < sum_list (map f xs)"
  using assms
proof (induction xs)
  case Nil
  then show ?case by simp
next
  case (Cons x xs)
  have "0 \<le> sum_list (map f xs)"
    by (rule sum_list_nonneg) (use Cons.prems(1) in \<open>auto intro: less_imp_le\<close>)
  moreover have "0 < f x" using Cons.prems(1) by simp
  ultimately show ?case by simp
qed

lemma server_ok_updateRequests:
  assumes "server_ok sv"
  shows "server_ok (updateRequests t1 t2 sv)"
proof -
  let ?done = "filter (isComplete t1) (requests sv)"
  from assms have nonneg: "\<forall>r \<in> set (requests sv). 0 \<le> cpuLoad r"
    "\<forall>r \<in> set (requests sv). 0 \<le> memoryLoad r"
    and pos: "\<forall>r \<in> set (requests sv). 0 < processingTime r"
    by (simp_all add: server_ok_def)
  let ?left = "filter (\<lambda>req. \<not> isComplete t2 req) (requests sv)"
  have "sum_list (map cpuLoad ?left) \<le> sum_list (map cpuLoad (requests sv))"
    by (rule sum_list_filter_le [OF nonneg(1)])
  moreover have "sum_list (map cpuLoad (requests sv)) \<le> 100"
    using assms by (simp add: server_ok_def)
  ultimately have cpu: "sum_list (map cpuLoad ?left) \<le> 100" by linarith
  have "sum_list (map memoryLoad ?left) \<le> sum_list (map memoryLoad (requests sv))"
    by (rule sum_list_filter_le [OF nonneg(2)])
  moreover have "sum_list (map memoryLoad (requests sv)) \<le> 100"
    using assms by (simp add: server_ok_def)
  ultimately have mem: "sum_list (map memoryLoad ?left) \<le> 100" by linarith
  have dpos: "\<forall>r \<in> set ?done. 0 < processingTime r" using pos by simp
  have d0: "0 \<le> sum_list (map processingTime ?done)"
    by (rule sum_list_nonneg) (use dpos in \<open>auto intro: less_imp_le\<close>)
  have total: "0 \<le> totalResponseTime sv + sum_list (map processingTime ?done)"
    using assms d0 by (simp add: server_ok_def)
  have hist: "0 < totalResponseTime sv + sum_list (map processingTime ?done)"
    if "0 < completedRequests sv + length ?done"
  proof (cases "?done = []")
    case True
    with that assms show ?thesis by (simp add: server_ok_def)
  next
    case False
    from sum_list_pos_nonempty [OF dpos False] assms show ?thesis
      by (simp add: server_ok_def add_nonneg_pos)
  qed
  show ?thesis
    unfolding server_ok_def updateRequests_fields
    using assms cpu mem total hist by (simp add: server_ok_def)
qed

lemma server_ok_addRequest:
  assumes "server_ok sv" "canHandleRequest sv req"
    "0 \<le> cpuLoad req" "0 \<le> memoryLoad req" "0 < processingTime req"
  shows "server_ok (addRequest sv req)"
  using assms by (simp add: server_ok_def addRequest_def canHandleRequest_def getCurrentLoad_sum)

lemma server_ok_rejected:
  "server_ok sv \<Longrightarrow> server_ok (sv\<lparr>rejectedRequests := n\<rparr>)"
  by (simp add: server_ok_def)

lemma server_ok_cleared:
  "server_ok sv \<Longrightarrow> server_ok (sv\<lparr>requests := [], rejectedRequests := 0\<rparr>)"
  by (simp add: server_ok_def)

lemma all_list_update:
  assumes "\<forall>x \<in> set xs. P x" "P y"
  shows "\<forall>x \<in> set (list_update xs i y). P x"
  using assms set_update_subset_insert [of xs i y] by auto

lemma updateAll_length: "length (updateAll clock i svs) = length svs"
  by (induction svs arbitrary: i) simp_all

lemma updateAll_ok:
  assumes "\<forall>sv \<in> set svs. server_ok sv"
  shows "\<forall>sv \<in> set (updateAll clock i svs). server_ok sv"
  using assms by (induction svs arbitrary: i) (simp_all add: server_ok_updateRequests)

subsection \<open>The operations of the simulation keep its invariant\<close>

lemma createRequest_cases:
  obtains
    (raised) e where
      "createRequest rnd now s = Inl (e, s\<lparr>requestCount := requestCount s + 1\<rparr>)"
  | (admitted) t i where
      "js_index requestTypes (random_index (shd rnd) (length requestTypes)) = Some t"
      "selectServer (algorithm s) (stl (stl rnd)) (servers s) (currentServerIndex s) = Inr (Num i)"
      "0 \<le> i" "i < int (length (servers s))"
      "canHandleRequest (servers s ! nat i) (newRequest rnd now s t)"
      "createRequest rnd now s =
         Inr (s\<lparr>requestCount := requestCount s + 1,
                currentServerIndex := js_rem (Num (i + 1)) (numServers s),
                servers := list_update (servers s) (nat i)
                   (addRequest (servers s ! nat i) (newRequest rnd now s t))\<rparr>)"
  | (rejected) t i where
      "js_index requestTypes (random_index (shd rnd) (length requestTypes)) = Some t"
      "selectServer (algorithm s) (stl (stl rnd)) (servers s) (currentServerIndex s) = Inr (Num i)"
      "0 \<le> i" "i < int (length (servers s))"
      "\<not> canHandleRequest (servers s ! nat i) (newRequest rnd now s t)"
      "createRequest rnd now s =
         Inr (s\<lparr>requestCount := requestCount s + 1,
                totalRejectedRequests := totalRejectedRequests s + 1,
                servers := list_update (servers s) (nat i)
                   ((servers s ! nat i)\<lparr>rejectedRequests := rejectedRequests (servers s ! nat i) + 1\<rparr>)\<rparr>)"
proof (cases "js_index requestTypes (random_index (shd rnd) (length requestTypes))")
  case None
  then show ?thesis using raised [of TypeError] by (simp add: createRequest_def)
next
  case (Some t)
  note t = this
  show ?thesis
  proof (cases "selectServer (algorithm s) (stl (stl rnd)) (servers s) (currentServerIndex s)")
    case (Inl e)
    then show ?thesis using t raised [of e] by (simp add: createRequest_def)
  next
    case (Inr serverIndex)
    note sel = this
    show ?thesis
    proof (cases serverIndex)
      case NaN
      then show ?thesis using t sel raised [of TypeError] by (simp add: createRequest_def)
    next
      case (Num i)
      show ?thesis
      proof (cases "js_index (servers s) (Num i)")
        case None
        then show ?thesis using t sel Num raised [of TypeError]
          by (simp add: createRequest_def)
      next
        case (Some sv)
        then have i: "0 \<le> i" "i < int (length (servers s))" and sv: "sv = servers s ! nat i"
          by (simp_all split: if_splits)
        show ?thesis
        proof (cases "canHandleRequest (servers s ! nat i) (newRequest rnd now s t)")
          case True
          show ?thesis
            by (rule admitted [of t i])
              (use t sel Num i True in \<open>simp_all add: createRequest_def newRequest_def\<close>)
        next
          case False
          show ?thesis
            by (rule rejected [of t i])
              (use t sel Num i False in \<open>simp_all add: createRequest_def newRequest_def\<close>)
        qed
      qed
    qed
  qed
qed

lemma requestType_nonneg:
  assumes "js_index requestTypes j = Some t"
  shows "0 \<le> type_cpu t \<and> 0 \<le> type_memory t"
proof -
  from assms have "t \<in> set requestTypes"
    by (cases j) (auto split: if_splits)
  then show ?thesis by (auto simp: requestTypes_def)
qed

lemma newRequest_fields:
  "cpuLoad (newRequest rnd now s t) = type_cpu t"
  "memoryLoad (newRequest rnd now s t) = type_memory t"
  "processingTime (newRequest rnd now s t) = shd (stl rnd) * 499 + 1"
  "id_r (newRequest rnd now s t) = requestCount s"
  "startTime (newRequest rnd now s t) = now"
  by (simp_all add: newRequest_def Request_def)

lemma valid_draws_second: "valid_draws rnd \<Longrightarrow> 0 \<le> shd (stl rnd) \<and> shd (stl rnd) < 1"
  by (cases rnd, cases "stl rnd") (auto simp: valid_draws_def)

lemma valid_draws_first: "valid_draws rnd \<Longrightarrow> 0 \<le> shd rnd \<and> shd rnd < 1"
  by (cases rnd) (auto simp: valid_draws_def)

lemma valid_draws_stl: "valid_draws rnd \<Longrightarrow> valid_draws (stl rnd)"
  by (cases rnd) (auto simp: valid_draws_def)

lemma sim_ok_constructed: "sim_ok (LoadBalancerSimulation a)"
  by (simp add: sim_ok_def LoadBalancerSimulation_def initializeServers_def server_ok_Server)

lemma sim_ok_createRequest:
  assumes "sim_ok s" "valid_draws rnd"
  shows "sim_ok (state_after (createRequest rnd now s))"
proof (cases rnd now s rule: createRequest_cases)
  case (raised e)
  with assms(1) show ?thesis by (simp add: sim_ok_def)
next
  case (admitted t i)
  let ?sv = "servers s ! nat i" and ?req = "newRequest rnd now s t"
  have "server_ok ?sv" using assms(1) admitted(3,4) by (simp add: sim_ok_def)
  moreover have "0 < processingTime ?req"
    using valid_draws_second [OF assms(2)] by (simp add: newRequest_fields)
  ultimately have "server_ok (addRequest ?sv ?req)"
    using admitted(5) requestType_nonneg [OF admitted(1)]
    by (intro server_ok_addRequest) (simp_all add: newRequest_fields)
  then have all: "\<forall>sv \<in> set (list_update (servers s) (nat i) (addRequest ?sv ?req)). server_ok sv"
    using assms(1) by (intro all_list_update) (simp_all add: sim_ok_def)
  have n: "numServers s = length (servers s)" "0 < length (servers s)"
    using assms(1) admitted(3,4) by (auto simp: sim_ok_def)
  have "i + 1 \<ge> 0" using admitted(3) by simp
  then have "js_rem (Num (i + 1)) (numServers s) = Num (int (nat ((i + 1) mod int (length (servers s)))))"
    using n admitted(3) by (simp add: sgn_if)
  moreover have "nat ((i + 1) mod int (length (servers s))) < length (servers s)"
    using n by (simp add: nat_less_iff)
  ultimately have cur: "\<exists>c. js_rem (Num (i + 1)) (numServers s) = Num (int c) \<and>
      (c = 0 \<or> c < length (servers s))"
    by blast
  show ?thesis
    unfolding admitted(6) using assms(1) all cur n(1) by (simp add: sim_ok_def)
next
  case (rejected t i)
  let ?sv = "servers s ! nat i"
  have "server_ok ?sv" using assms(1) rejected(3,4) by (simp add: sim_ok_def)
  then have "server_ok (?sv\<lparr>rejectedRequests := rejectedRequests ?sv + 1\<rparr>)"
    by (rule server_ok_rejected)
  then have all: "\<forall>sv \<in> set (list_update (servers s) (nat i)
      (?sv\<lparr>rejectedRequests := rejectedRequests ?sv + 1\<rparr>)). server_ok sv"
    using assms(1) by (intro all_list_update) (simp_all add: sim_ok_def)
  show ?thesis
    unfolding rejected(6) using assms(1) all by (simp add: sim_ok_def)
qed

lemma updateStatsDisplay_fields:
  "servers (updateStatsDisplay s) = servers s"
  "numServers (updateStatsDisplay s) = numServers s"
  "currentServerIndex (updateStatsDisplay s) = currentServerIndex s"
  "maxDataPoints (updateStatsDisplay s) = maxDataPoints s"
  "algorithm (updateStatsDisplay s) = algorithm s"
  "requestCount (updateStatsDisplay s) = requestCount s"
  "totalRejectedRequests (updateStatsDisplay s) = totalRejectedRequests s"
  by (simp_all add: updateStatsDisplay_def Let_def)

lemma updateStatsDisplay_history:
  "cpuBalanceHistory (updateStatsDisplay s) =
     (if length (cpuBalanceHistory s) < maxDataPoints s
      then cpuBalanceHistory s @ [calculateBalanceScore (map (\<lambda>sv. Finite (cpu (getCurrentLoad sv))) (servers s))]
      else tl (cpuBalanceHistory s @ [calculateBalanceScore (map (\<lambda>sv. Finite (cpu (getCurrentLoad sv))) (servers s))]))"
  "memoryBalanceHistory (updateStatsDisplay s) =
     (if length (cpuBalanceHistory s) < maxDataPoints s
      then memoryBalanceHistory s @ [calculateBalanceScore (map (\<lambda>sv. Finite (memory (getCurrentLoad sv))) (servers s))]
      else tl (memoryBalanceHistory s @ [calculateBalanceScore (map (\<lambda>sv. Finite (memory (getCurrentLoad sv))) (servers s))]))"
  by (auto simp: updateStatsDisplay_def Let_def)

lemma sim_ok_updateStatsDisplay:
  assumes "sim_ok s"
  shows "sim_ok (updateStatsDisplay s)"
  using assms unfolding sim_ok_def updateStatsDisplay_fields updateStatsDisplay_history
  by auto

lemma sim_ok_animate:
  assumes "sim_ok s"
  shows "sim_ok (animate clock s)"
proof -
  let ?s2 = "updateStatsDisplay (updateStatsDisplay s)"
  have ok: "sim_ok ?s2" using assms by (intro sim_ok_updateStatsDisplay)
  have "animate clock s = ?s2\<lparr>servers := updateAll clock 0 (servers ?s2)\<rparr>"
    by (simp add: animate_def updateServerVisuals_def Let_def)
  then show ?thesis
    using ok updateAll_ok [of "servers ?s2" clock 0]
    by (simp add: sim_ok_def updateAll_length)
qed

lemma sim_ok_setNumServers:
  assumes "sim_ok s"
  shows "sim_ok (setNumServers count s)"
  using assms by (simp add: sim_ok_def setNumServers_def initializeServers_def server_ok_Server)

lemma sim_ok_algorithm:
  "sim_ok s \<Longrightarrow> sim_ok (s\<lparr>algorithm := a\<rparr>)"
  by (simp add: sim_ok_def)

lemma sim_ok_clearRequests:
  assumes "sim_ok s"
  shows "sim_ok (clearRequests s)"
  using assms by (auto simp: sim_ok_def clearRequests_def server_ok_cleared)

lemma sim_ok_resetSimulation:
  assumes "sim_ok s"
  shows "sim_ok (resetSimulation s)"
  unfolding resetSimulation_def
  by (intro sim_ok_clearRequests sim_ok_algorithm sim_ok_setNumServers assms)

lemma reachable_sim_ok: "reachable s \<Longrightarrow> sim_ok s"
proof (induction rule: reachable.induct)
  case (constructed a)
  show ?case by (rule sim_ok_constructed)
next
  case (request s rnd now)
  then show ?case by (intro sim_ok_createRequest)
next
  case (frame s clock)
  then show ?case by (intro sim_ok_animate)
next
  case (server_count s count)
  then show ?case by (intro sim_ok_setNumServers)
next
  case (algorithm_change s a)
  then show ?case by (intro sim_ok_algorithm)
next
  case (reset s)
  then show ?case by (intro sim_ok_resetSimulation)
next
  case (cleared s)
  then show ?case by (intro sim_ok_clearRequests)
next
  case (sample s)
  then show ?case by (intro sim_ok_updateStatsDisplay)
qed

subsection \<open>What the algorithms return\<close>

lemma RoundRobin_returns_cursor:
  assumes "svs \<noteq> []" "0 \<le> c"
  shows "RoundRobin_selectServer svs (Num c) = Inr (Num (c mod int (length svs)))"
proof -
  have upt: "[0..<length svs] = 0 # [1..<length svs]"
    using assms(1) by (simp add: upt_conv_Cons)
  have "0 \<le> c mod int (length svs)" "c mod int (length svs) < int (length svs)"
    using assms(1) by simp_all
  moreover have "sgn c * (\<bar>c\<bar> mod int (length svs)) = c mod int (length svs)"
    using assms(2) by (cases "c = 0") (simp_all add: sgn_if)
  ultimately show ?thesis
    using assms(1) unfolding RoundRobin_selectServer_def upt
    by (simp add: canHandleRequest_ref_def)
qed

lemma random_index_in_range:
  assumes "0 \<le> r" "r < 1" "0 < n"
  shows "0 \<le> \<lfloor>r * real n\<rfloor> \<and> \<lfloor>r * real n\<rfloor> < int n"
proof -
  have "0 \<le> r * real n" using assms by simp
  moreover have "r * real n < real n" using assms by simp
  then have "\<lfloor>r * real n\<rfloor> < int n" by (simp add: floor_less_iff)
  ultimately show ?thesis by simp
qed

lemma Random_returns_first_draw:
  assumes "svs \<noteq> []" "0 \<le> shd rnd" "shd rnd < 1"
  shows "Random_selectServer svs rnd = Inr (Num \<lfloor>shd rnd * real (length svs)\<rfloor>)"
proof -
  have "0 < length svs" using assms(1) by simp
  from random_index_in_range [OF assms(2,3) this]
  show ?thesis
    unfolding Random_selectServer_def
    by (subst Random_loop.simps) (simp add: random_index_def canHandleRequest_ref_def assms(1))
qed


subsection \<open>The loop that keeps the least score\<close>

lemma scanned_step:
  assumes "scanned f pre m sel"
  shows "if less_bound (f sv) m then scanned f (pre @ [sv]) (Fin (f sv)) (length pre)
         else scanned f (pre @ [sv]) m sel"
proof (cases m)
  case Infinity
  with assms show ?thesis by (simp add: scanned_def least_index_minimizing_def)
next
  case (Fin x)
  with assms have x: "x = f (pre ! sel)" and sel: "sel < length pre"
    and le: "\<forall>j \<in> {0..<length pre}. f (pre ! sel) \<le> f (pre ! j)"
    and lt: "\<forall>j \<in> {0..<sel}. f (pre ! sel) < f (pre ! j)"
    by (simp_all add: scanned_def least_index_minimizing_def)
  show ?thesis
  proof (cases "f sv < x")
    case True
    have "f sv < f ((pre @ [sv]) ! j)" if "j < length pre" for j
      using that True x le by (force simp: nth_append)
    moreover have "f sv \<le> f ((pre @ [sv]) ! j)" if "j < Suc (length pre)" for j
      using that True x le by (cases "j < length pre") (force simp: nth_append)+
    ultimately show ?thesis using Fin True
      by (simp add: scanned_def least_index_minimizing_def)
  next
    case False
    have "f (pre ! sel) \<le> f ((pre @ [sv]) ! j)" if "j < Suc (length pre)" for j
      using that False x le by (cases "j < length pre") (force simp: nth_append)+
    moreover have "f (pre ! sel) < f ((pre @ [sv]) ! j)" if "j < sel" for j
      using that sel lt by (simp add: nth_append)
    ultimately show ?thesis using Fin False x sel
      by (simp add: scanned_def least_index_minimizing_def nth_append)
  qed
qed

lemma forEach_min_scanned:
  assumes "scanned f pre m sel" "pre @ svs \<noteq> []"
  shows "least_index_minimizing f (pre @ svs) (forEach_min f svs (length pre) m sel)"
  using assms
proof (induction svs arbitrary: pre m sel)
  case Nil
  then show ?case by (cases m) (simp_all add: scanned_def)
next
  case (Cons sv svs)
  from scanned_step [OF Cons.prems(1), of sv]
  show ?case
    using Cons.IH [of "pre @ [sv]"] by (simp split: if_splits)
qed

lemma forEach_min_least:
  assumes "svs \<noteq> []"
  shows "least_index_minimizing f svs (forEach_min f svs 0 Infinity 0)"
  using forEach_min_scanned [of f "[]" Infinity 0 svs] assms by (simp add: scanned_def)

subsection \<open>Sample states, evaluated\<close>

lemma valid_draws_sconst: "0 \<le> r \<Longrightarrow> r < 1 \<Longrightarrow> valid_draws (sconst r)"
  by (simp add: valid_draws_def)

lemma valid_half_draws: "valid_draws half_draws"
  by (simp add: half_draws_def valid_draws_sconst)

lemma valid_zero_draws: "valid_draws zero_draws"
  by (simp add: zero_draws_def valid_draws_sconst)

lemma constructed_servers: "servers (LoadBalancerSimulation a) = [Server, Server, Server, Server]"
  by (simp add: LoadBalancerSimulation_def initializeServers_def numeral_eq_Suc)

lemma half_draws_type:
  "js_index requestTypes (random_index (shd half_draws) (length requestTypes)) =
     Some \<lparr>type_cpu = 4, type_memory = 8\<rparr>"
  by (simp add: requestTypes_def random_index_def half_draws_def)


lemma busy_server_load:
  "cpu (getCurrentLoad busy_server) = 100" "memory (getCurrentLoad busy_server) = 60"
  "maxCpu busy_server = 100" "maxMemory busy_server = 100"
  by (simp_all add: getCurrentLoad_def busy_server_def Server_def Request_def)

lemma Server_load:
  "cpu (getCurrentLoad Server) = 0" "memory (getCurrentLoad Server) = 0"
  "maxCpu Server = 100" "maxMemory Server = 100"
  by (simp_all add: getCurrentLoad_def Server_def)

lemma probe_fits:
  "\<not> canHandleRequest busy_server probe" "canHandleRequest Server probe"
  by (simp_all add: canHandleRequest_def busy_server_load Server_load probe_def Request_def)

lemma first_request:
  "newRequest half_draws 0 (LoadBalancerSimulation a) \<lparr>type_cpu = 4, type_memory = 8\<rparr> =
     \<lparr>id_r = 0, cpuLoad = 4, memoryLoad = 8, processingTime = 501 / 2, startTime = 0\<rparr>"
  by (simp add: newRequest_def Request_def half_draws_def LoadBalancerSimulation_def
      initializeServers_def)

lemma first_admitted_RoundRobin:
  "servers (first_admitted RoundRobinAlgorithm) =
     [Server\<lparr>requests := [\<lparr>id_r = 0, cpuLoad = 4, memoryLoad = 8, processingTime = 501 / 2,
        startTime = 0\<rparr>]\<rparr>, Server, Server, Server]"
proof -
  let ?s = "LoadBalancerSimulation RoundRobinAlgorithm"
  have sel: "selectServer (algorithm ?s) (stl (stl half_draws)) (servers ?s) (currentServerIndex ?s)
      = Inr (Num 0)"
    using RoundRobin_returns_cursor [of "servers ?s" 0]
    by (simp add: constructed_servers) (simp add: LoadBalancerSimulation_def initializeServers_def)
  have fits: "canHandleRequest Server (newRequest half_draws 0 ?s \<lparr>type_cpu = 4, type_memory = 8\<rparr>)"
    unfolding first_request by (simp add: canHandleRequest_def Server_load)
  show ?thesis
    unfolding first_admitted_def createRequest_def Let_def half_draws_type sel
      newRequest_def [symmetric]
    using fits
    by (simp add: constructed_servers first_request addRequest_def Server_def)
qed


lemma reachable_first_admitted: "reachable (first_admitted a)"
  unfolding first_admitted_def
  by (intro reachable.request reachable.constructed valid_half_draws)

subsection \<open>Capacity\<close>

text \<open>
  Claim C1. In every state that a running simulation reaches, by requests (admitted,
  rejected or ended by an exception), frames with their reclamation, changes of the
  server count or the algorithm, and resets, each server's active requests sum up to at
  most 100 in \<open>cpuLoad\<close> and at most 100 in \<open>memoryLoad\<close>, and these sums are what
  \<^verbatim>\<open>getCurrentLoad\<close> reports. \<^verbatim>\<open>createRequest\<close> changes a server's active requests only
  after \<^verbatim>\<open>canHandleRequest\<close> has held, so no state in between exceeds the bound either.
\<close>

theorem capacity_invariant:
  assumes "reachable s" "sv \<in> set (servers s)"
  shows "cpu (getCurrentLoad sv) = sum_list (map cpuLoad (requests sv)) \<and>
         memory (getCurrentLoad sv) = sum_list (map memoryLoad (requests sv)) \<and>
         sum_list (map cpuLoad (requests sv)) \<le> 100 \<and>
         sum_list (map memoryLoad (requests sv)) \<le> 100"
proof -
  from reachable_sim_ok [OF assms(1)] assms(2) have "server_ok sv"
    by (simp add: sim_ok_def)
  then show ?thesis by (simp add: server_ok_def getCurrentLoad_sum)
qed

theorem capacity_invariant_witness:
  "reachable (first_admitted RoundRobinAlgorithm) \<and>
   servers (first_admitted RoundRobinAlgorithm) ! 0 \<in> set (servers (first_admitted RoundRobinAlgorithm)) \<and>
   cpu (getCurrentLoad (servers (first_admitted RoundRobinAlgorithm) ! 0)) = 4 \<and>
   sum_list (map cpuLoad (requests (servers (first_admitted RoundRobinAlgorithm) ! 0))) \<le> 100 \<and>
   sum_list (map memoryLoad (requests (servers (first_admitted RoundRobinAlgorithm) ! 0))) \<le> 100"
proof -
  let ?s = "first_admitted RoundRobinAlgorithm"
  have r: "reachable ?s" by (rule reachable_first_admitted)
  have m: "servers ?s ! 0 \<in> set (servers ?s)" by (simp add: first_admitted_RoundRobin)
  have "cpu (getCurrentLoad (servers ?s ! 0)) = 4"
    by (simp add: first_admitted_RoundRobin getCurrentLoad_def Server_def)
  with r m capacity_invariant [OF r m] show ?thesis by simp
qed

subsection \<open>The built-in algorithms answer an index of the list\<close>

lemma forEach_min_in_range:
  assumes "svs \<noteq> []"
  shows "forEach_min f svs 0 Infinity 0 < length svs"
  using forEach_min_least [OF assms, of f] by (simp add: least_index_minimizing_def)

text \<open>
  Claim C10. For a non-empty server list and a cursor within it, each of the five built-in
  algorithms returns an index \<open>i\<close> with \<open>0 \<le> i < length svs\<close> (Random for draws in
  \<open>[0, 1)\<close>), so the driver's read \<^verbatim>\<open>this.servers[serverIndex]\<close> finds a server.
\<close>

theorem builtin_selectServer_in_range:
  assumes "svs \<noteq> []" "0 \<le> c" "c < int (length svs)" "valid_draws rnd" "builtin a"
  shows "\<exists>i. selectServer a rnd svs (Num c) = Inr (Num i) \<and> 0 \<le> i \<and> i < int (length svs) \<and>
           js_index svs (Num i) = Some (svs ! nat i)"
proof (cases a)
  case LoadBalancerAlgorithm
  with assms(5) show ?thesis by simp
next
  case RoundRobinAlgorithm
  then show ?thesis
    using RoundRobin_returns_cursor [OF assms(1,2)] assms(1,2,3) by simp
next
  case RandomAlgorithm
  have r: "0 \<le> shd rnd" "shd rnd < 1" using valid_draws_first [OF assms(4)] by simp_all
  have "0 < length svs" using assms(1) by simp
  from random_index_in_range [OF r this] Random_returns_first_draw [OF assms(1) r]
  show ?thesis using RandomAlgorithm by simp
next
  case LeastRequestsAlgorithm
  then show ?thesis
    using forEach_min_in_range [OF assms(1), of requestsLength]
    by (simp add: LeastRequests_selectServer_def)
next
  case LeastResponseTimeAlgorithm
  then show ?thesis
    using forEach_min_in_range [OF assms(1), of effectiveTime]
    by (simp add: LeastResponseTime_selectServer_def)
next
  case DynamicAlgorithm
  then show ?thesis
    using forEach_min_in_range [OF assms(1), of currentCpu]
    by (simp add: Dynamic_selectServer_def)
next
  case (CustomAlgorithm f)
  with assms(5) show ?thesis by simp
qed

theorem builtin_selectServer_in_range_witness:
  "[busy_server, Server] \<noteq> [] \<and> (0::int) \<le> 1 \<and> 1 < int (length [busy_server, Server]) \<and>
   valid_draws half_draws \<and>
   builtin RoundRobinAlgorithm \<and> builtin RandomAlgorithm \<and> builtin LeastRequestsAlgorithm \<and>
   builtin LeastResponseTimeAlgorithm \<and> builtin DynamicAlgorithm \<and>
   (\<exists>i. selectServer RoundRobinAlgorithm half_draws [busy_server, Server] (Num 1) = Inr (Num i) \<and>
        0 \<le> i \<and> i < 2) \<and>
   (\<exists>i. selectServer RandomAlgorithm half_draws [busy_server, Server] (Num 1) = Inr (Num i) \<and>
        0 \<le> i \<and> i < 2) \<and>
   (\<exists>i. selectServer LeastRequestsAlgorithm half_draws [busy_server, Server] (Num 1) = Inr (Num i) \<and>
        0 \<le> i \<and> i < 2) \<and>
   (\<exists>i. selectServer LeastResponseTimeAlgorithm half_draws [busy_server, Server] (Num 1) = Inr (Num i) \<and>
        0 \<le> i \<and> i < 2) \<and>
   (\<exists>i. selectServer DynamicAlgorithm half_draws [busy_server, Server] (Num 1) = Inr (Num i) \<and>
        0 \<le> i \<and> i < 2)"
proof -
  have h: "[busy_server, Server] \<noteq> []" "(0::int) \<le> 1" "1 < int (length [busy_server, Server])"
    by simp_all
  note t = builtin_selectServer_in_range [OF h valid_half_draws]
  have b: "builtin RoundRobinAlgorithm" "builtin RandomAlgorithm" "builtin LeastRequestsAlgorithm"
    "builtin LeastResponseTimeAlgorithm" "builtin DynamicAlgorithm"
    by simp_all
  from t [OF b(1)] have 1: "\<exists>i. selectServer RoundRobinAlgorithm half_draws [busy_server, Server] (Num 1) = Inr (Num i) \<and>
        0 \<le> i \<and> i < 2" by auto
  from t [OF b(2)] have 2: "\<exists>i. selectServer RandomAlgorithm half_draws [busy_server, Server] (Num 1) = Inr (Num i) \<and>
        0 \<le> i \<and> i < 2" by auto
  from t [OF b(3)] have 3: "\<exists>i. selectServer LeastRequestsAlgorithm half_draws [busy_server, Server] (Num 1) = Inr (Num i) \<and>
        0 \<le> i \<and> i < 2" by auto
  from t [OF b(4)] have 4: "\<exists>i. selectServer LeastResponseTimeAlgorithm half_draws [busy_server, Server] (Num 1) = Inr (Num i) \<and>
        0 \<le> i \<and> i < 2" by auto
  from t [OF b(5)] have 5: "\<exists>i. selectServer DynamicAlgorithm half_draws [busy_server, Server] (Num 1) = Inr (Num i) \<and>
        0 \<le> i \<and> i < 2" by auto
  show ?thesis using h valid_half_draws b 1 2 3 4 5 by blast
qed

subsection \<open>Least Response Time\<close>




subsection \<open>The balance history\<close>

text \<open>
  Claim C9. After every sample of a running simulation the two history arrays have the
  same length, at most 50; the sample's two scores stand at their ends; and when the
  arrays were full (50 entries) their first, oldest entries have been dropped. So the
  arrays are in the order of sampling, oldest first.
\<close>

theorem balance_history_bounded_fifo:
  assumes "reachable s"
  shows "length (cpuBalanceHistory (updateStatsDisplay s)) =
           length (memoryBalanceHistory (updateStatsDisplay s)) \<and>
         length (cpuBalanceHistory (updateStatsDisplay s)) \<le> 50 \<and>
         cpuBalanceHistory (updateStatsDisplay s) =
           (if length (cpuBalanceHistory s) < 50 then cpuBalanceHistory s
            else tl (cpuBalanceHistory s)) @
           [calculateBalanceScore (map (\<lambda>sv. Finite (cpu (getCurrentLoad sv))) (servers s))] \<and>
         memoryBalanceHistory (updateStatsDisplay s) =
           (if length (memoryBalanceHistory s) < 50 then memoryBalanceHistory s
            else tl (memoryBalanceHistory s)) @
           [calculateBalanceScore (map (\<lambda>sv. Finite (memory (getCurrentLoad sv))) (servers s))]"
proof -
  from reachable_sim_ok [OF assms] have ok: "maxDataPoints s = 50"
    "length (cpuBalanceHistory s) = length (memoryBalanceHistory s)"
    "length (cpuBalanceHistory s) \<le> 50"
    by (simp_all add: sim_ok_def)
  have after: "sim_ok (updateStatsDisplay s)"
    using reachable_sim_ok [OF assms] by (rule sim_ok_updateStatsDisplay)
  have full: "tl (h @ [x]) = tl h @ [x]" if "length h = 50" for h :: "number list" and x
    using that by (cases h) simp_all
  have "cpuBalanceHistory (updateStatsDisplay s) =
      (if length (cpuBalanceHistory s) < 50 then cpuBalanceHistory s else tl (cpuBalanceHistory s)) @
      [calculateBalanceScore (map (\<lambda>sv. Finite (cpu (getCurrentLoad sv))) (servers s))]"
    using ok full [of "cpuBalanceHistory s"] by (simp add: updateStatsDisplay_history)
  moreover have "memoryBalanceHistory (updateStatsDisplay s) =
      (if length (memoryBalanceHistory s) < 50 then memoryBalanceHistory s
       else tl (memoryBalanceHistory s)) @
      [calculateBalanceScore (map (\<lambda>sv. Finite (memory (getCurrentLoad sv))) (servers s))]"
    using ok full [of "memoryBalanceHistory s"] by (simp add: updateStatsDisplay_history)
  ultimately show ?thesis using after by (simp add: sim_ok_def)
qed

theorem balance_history_bounded_fifo_witness:
  "reachable sampled_once \<and>
   cpuBalanceHistory sampled_once = [Finite 100] \<and>
   cpuBalanceHistory (updateStatsDisplay sampled_once) = [Finite 100, Finite 100] \<and>
   memoryBalanceHistory (updateStatsDisplay sampled_once) = [Finite 100, Finite 100]"
proof -
  have r: "reachable sampled_once"
    unfolding sampled_once_def by (intro reachable.sample reachable.constructed)
  have z: "calculateBalanceScore [Finite 0, Finite 0, Finite 0, Finite 0] = Finite 100"
    by (simp add: calculateBalanceScore_def)
  have sv: "servers sampled_once = [Server, Server, Server, Server]"
    by (simp add: sampled_once_def updateStatsDisplay_fields constructed_servers)
  have h: "cpuBalanceHistory sampled_once = [Finite 100]" "memoryBalanceHistory sampled_once = [Finite 100]"
    by (simp_all add: sampled_once_def updateStatsDisplay_history constructed_servers Server_load z)
      (simp_all add: LoadBalancerSimulation_def initializeServers_def)
  from balance_history_bounded_fifo [OF r] show ?thesis
    using r h by (simp add: sv Server_load z)
qed

subsection \<open>Admission\<close>









subsection \<open>An index outside the server list\<close>

text \<open>
  Claim C5, as amended. When the algorithm answers an index outside the server list
  (below 0, or the number of servers or more), \<^verbatim>\<open>createRequest\<close> raises a
  \<^verbatim>\<open>TypeError\<close>: \<^verbatim>\<open>this.servers[serverIndex]\<close> is \<^verbatim>\<open>undefined\<close>, and the call of its
  method fails. The submission is not counted as a rejection; the state is left as it
  was, but for the request counter, which has advanced by one.
\<close>

theorem createRequest_index_outside_raises:
  assumes "js_index requestTypes (random_index (shd rnd) (length requestTypes)) = Some t"
    and "selectServer (algorithm s) (stl (stl rnd)) (servers s) (currentServerIndex s) = Inr (Num i)"
    and "i < 0 \<or> int (length (servers s)) \<le> i"
  shows "createRequest rnd now s = Inl (TypeError, s\<lparr>requestCount := requestCount s + 1\<rparr>)"
proof -
  from assms(3) have "js_index (servers s) (Num i) = None" by auto
  with assms(1,2) show ?thesis by (simp add: createRequest_def)
qed

lemma past_the_end_simulation:
  "selectServer (algorithm (LoadBalancerSimulation (CustomAlgorithm past_the_end)))
     (stl (stl half_draws)) (servers (LoadBalancerSimulation (CustomAlgorithm past_the_end)))
     (currentServerIndex (LoadBalancerSimulation (CustomAlgorithm past_the_end))) = Inr (Num 4)"
  by (simp add: constructed_servers past_the_end_def)
    (simp add: LoadBalancerSimulation_def initializeServers_def past_the_end_def)

theorem createRequest_index_outside_raises_witness:
  "js_index requestTypes (random_index (shd half_draws) (length requestTypes)) =
     Some \<lparr>type_cpu = 4, type_memory = 8\<rparr> \<and>
   selectServer (algorithm (LoadBalancerSimulation (CustomAlgorithm past_the_end)))
     (stl (stl half_draws)) (servers (LoadBalancerSimulation (CustomAlgorithm past_the_end)))
     (currentServerIndex (LoadBalancerSimulation (CustomAlgorithm past_the_end))) = Inr (Num 4) \<and>
   int (length (servers (LoadBalancerSimulation (CustomAlgorithm past_the_end)))) \<le> 4 \<and>
   createRequest half_draws 0 (LoadBalancerSimulation (CustomAlgorithm past_the_end)) =
     Inl (TypeError, (LoadBalancerSimulation (CustomAlgorithm past_the_end))\<lparr>requestCount := 1\<rparr>)"
proof -
  let ?s = "LoadBalancerSimulation (CustomAlgorithm past_the_end)"
  have out: "(4::int) < 0 \<or> int (length (servers ?s)) \<le> 4"
    by (simp add: constructed_servers)
  have "requestCount ?s = 0" by (simp add: LoadBalancerSimulation_def initializeServers_def)
  with createRequest_index_outside_raises [OF half_draws_type past_the_end_simulation out, of 0]
  show ?thesis
    using half_draws_type past_the_end_simulation by (simp add: constructed_servers)
qed

text \<open>
  The claim as stated fails: with four servers and an algorithm that answers 4, the
  request ends in a \<^verbatim>\<open>TypeError\<close>, no rejection is counted, and the request counter has
  changed.
\<close>

theorem createRequest_index_outside_counterexample:
  "createRequest half_draws 0 (LoadBalancerSimulation (CustomAlgorithm past_the_end)) =
     Inl (TypeError, (LoadBalancerSimulation (CustomAlgorithm past_the_end))\<lparr>requestCount := 1\<rparr>) \<and>
   totalRejectedRequests
     (state_after (createRequest half_draws 0 (LoadBalancerSimulation (CustomAlgorithm past_the_end)))) = 0 \<and>
   map rejectedRequests (servers
     (state_after (createRequest half_draws 0 (LoadBalancerSimulation (CustomAlgorithm past_the_end)))))
     = [0, 0, 0, 0] \<and>
   requestCount
     (state_after (createRequest half_draws 0 (LoadBalancerSimulation (CustomAlgorithm past_the_end)))) \<noteq>
   requestCount (LoadBalancerSimulation (CustomAlgorithm past_the_end))"
proof -
  let ?s = "LoadBalancerSimulation (CustomAlgorithm past_the_end)"
  have "js_index (servers ?s) (Num 4) = None" by (simp add: constructed_servers)
  then have "createRequest half_draws 0 ?s = Inl (TypeError, ?s\<lparr>requestCount := requestCount ?s + 1\<rparr>)"
    using half_draws_type past_the_end_simulation by (simp add: createRequest_def)
  moreover have "requestCount ?s = 0" "totalRejectedRequests ?s = 0"
    by (simp_all add: LoadBalancerSimulation_def initializeServers_def)
  ultimately show ?thesis by (simp add: constructed_servers Server_def)
qed

subsection \<open>Reset\<close>

lemma resetSimulation_fields:
  "servers (resetSimulation s) = [Server, Server, Server, Server]"
  "requestCount (resetSimulation s) = 0"
  "totalRejectedRequests (resetSimulation s) = 0"
  "currentServerIndex (resetSimulation s) = Num 0"
  "algorithm (resetSimulation s) = RoundRobinAlgorithm"
  "cpuBalanceHistory (resetSimulation s) = cpuBalanceHistory s"
  "memoryBalanceHistory (resetSimulation s) = memoryBalanceHistory s"
  by (simp_all add: resetSimulation_def clearRequests_def setNumServers_def initializeServers_def
      numeral_eq_Suc Server_def)

text \<open>
  Claim C4, as amended. \<^verbatim>\<open>resetSimulation\<close> leaves four servers, each without active
  requests and with its counters (completed requests, total response time, rejected
  requests) at 0; it sets the request counter and the simulation's rejection counter to
  0; and it leaves the two balance histories as they were.
\<close>

theorem resetSimulation_clears_all_but_history:
  "(\<forall>sv \<in> set (servers (resetSimulation s)).
      requests sv = [] \<and> completedRequests sv = 0 \<and> totalResponseTime sv = 0 \<and>
      rejectedRequests sv = 0) \<and>
   length (servers (resetSimulation s)) = 4 \<and>
   requestCount (resetSimulation s) = 0 \<and>
   totalRejectedRequests (resetSimulation s) = 0 \<and>
   cpuBalanceHistory (resetSimulation s) = cpuBalanceHistory s \<and>
   memoryBalanceHistory (resetSimulation s) = memoryBalanceHistory s"
  by (simp add: resetSimulation_fields) (simp add: Server_def)

lemma sampled_once_history:
  "cpuBalanceHistory sampled_once = [Finite 100]" "memoryBalanceHistory sampled_once = [Finite 100]"
proof -
  have z: "calculateBalanceScore [Finite 0, Finite 0, Finite 0, Finite 0] = Finite 100"
    by (simp add: calculateBalanceScore_def)
  show "cpuBalanceHistory sampled_once = [Finite 100]" "memoryBalanceHistory sampled_once = [Finite 100]"
    by (simp_all add: sampled_once_def updateStatsDisplay_history constructed_servers Server_load z)
      (simp_all add: LoadBalancerSimulation_def initializeServers_def)
qed

theorem resetSimulation_clears_all_but_history_witness:
  "requests (servers (resetSimulation (first_admitted RoundRobinAlgorithm)) ! 0) = [] \<and>
   requests (servers (first_admitted RoundRobinAlgorithm) ! 0) \<noteq> [] \<and>
   requestCount (resetSimulation (first_admitted RoundRobinAlgorithm)) = 0 \<and>
   cpuBalanceHistory (resetSimulation sampled_once) = [Finite 100] \<and>
   memoryBalanceHistory (resetSimulation sampled_once) = [Finite 100]"
proof -
  let ?s = "first_admitted RoundRobinAlgorithm"
  have "servers (resetSimulation ?s) ! 0 \<in> set (servers (resetSimulation ?s))"
    by (simp add: resetSimulation_fields)
  with resetSimulation_clears_all_but_history [of ?s]
  have "requests (servers (resetSimulation ?s) ! 0) = []"
    "requestCount (resetSimulation ?s) = 0"
    by blast+
  moreover have "requests (servers ?s ! 0) \<noteq> []"
    by (simp add: first_admitted_RoundRobin)
  ultimately show ?thesis
    using resetSimulation_clears_all_but_history [of sampled_once]
    by (simp add: sampled_once_history)
qed

text \<open>
  The claim as stated fails: a reset after one sample leaves that sample in both
  histories.
\<close>

theorem resetSimulation_history_counterexample:
  "cpuBalanceHistory (resetSimulation sampled_once) \<noteq> [] \<and>
   memoryBalanceHistory (resetSimulation sampled_once) \<noteq> []"
  by (simp add: resetSimulation_fields sampled_once_history)

subsection \<open>Round Robin and Random do not look at the capacity\<close>

text \<open>
  Claim C3 asks Round Robin for the first server, from the cursor on, that passes the
  capacity test. The code tests the method \<^verbatim>\<open>canHandleRequest\<close> itself, which is always
  truthy, and so returns the cursor: with a busy server at the cursor 0 and a free server
  at 1, it returns 0, where the request \<open>probe\<close> does not fit, and not 1, where it fits.
\<close>

theorem RoundRobin_returns_busy_cursor:
  "RoundRobin_selectServer [busy_server, Server] (Num 0) = Inr (Num 0) \<and>
   \<not> canHandleRequest busy_server probe \<and> canHandleRequest Server probe"
  using RoundRobin_returns_cursor [of "[busy_server, Server]" 0] probe_fits by simp

text \<open>
  Claim C7 asks Random for an index that passes the capacity test whenever some server
  passes it. The code tests the method \<^verbatim>\<open>canHandleRequest\<close> itself, and so returns its
  first draw: with a busy server at 0, a free server at 1 and a first draw of 0, it
  returns 0, where the request \<open>probe\<close> does not fit, having tried no other server.
\<close>

theorem Random_returns_busy_first_draw:
  "Random_selectServer [busy_server, Server] zero_draws = Inr (Num 0) \<and>
   \<not> canHandleRequest busy_server probe \<and> canHandleRequest Server probe"
  using Random_returns_first_draw [of "[busy_server, Server]" zero_draws] probe_fits
  by (simp add: zero_draws_def)

end
